theory Spec2Isabelle
  imports Main "HOL-Library.Word" "HOL-Library.Sublist"
begin

section \<open>Common vocabulary of the probe and fixture programs\<close>

text \<open>
  The programs are C and C++ sources. Their \<open>int\<close> is a 32-bit signed integer whose
  overflow is undefined behaviour; a run that would overflow is a value of the error type.
  Exceptions that leave a function are error values as well.
\<close>

datatype cpp_error =
    SignedOverflow        \<comment> \<open>an \<open>int\<close> operation left the range of \<open>int\<close>\<close>
  | UndefinedBehaviour    \<comment> \<open>dereferencing \<open>end()\<close>, an out-of-bounds store\<close>
  | LengthError           \<comment> \<open>\<open>std::length_error\<close> leaving the function\<close>

definition INT_MIN :: int where "INT_MIN = - (2 ^ 31)"
definition INT_MAX :: int where "INT_MAX = 2 ^ 31 - 1"

definition checked :: "int \<Rightarrow> cpp_error + int" where
  "checked x = (if INT_MIN \<le> x \<and> x \<le> INT_MAX then Inr x else Inl SignedOverflow)"

text \<open>Conversion of a \<open>size_t\<close> to \<open>int\<close> keeps the low 32 bits, read in two's complement.\<close>

definition size_to_int :: "nat \<Rightarrow> int" where
  "size_to_int k = (let m = int k mod 2 ^ 32 in if m < 2 ^ 31 then m else m - 2 ^ 32)"

text \<open>Decimal output of integers, as \<open>operator<<\<close> and \<open>%d\<close> print them.\<close>

definition digit_char :: "nat \<Rightarrow> char" where
  "digit_char d = ''0123456789'' ! d"

fun show_nat :: "nat \<Rightarrow> string" where
  "show_nat n = (if n < 10 then [digit_char n]
                 else show_nat (n div 10) @ [digit_char (n mod 10)])"

declare show_nat.simps [simp del]

definition show_int :: "int \<Rightarrow> string" where
  "show_int i = (if i < 0 then CHR ''-'' # show_nat (nat (- i)) else show_nat (nat i))"

definition endl :: string where
  "endl = [CHR 0x0A]"

section \<open>The longest-increasing-subsequence fixtures\<close>

text \<open>
  \<open>*max_element(dp.begin(), dp.end())\<close>: the scan keeps the first largest element;
  on an empty range it returns \<open>end()\<close>, whose dereference is undefined.
\<close>

fun max_element :: "int list \<Rightarrow> cpp_error + int" where
  "max_element [] = Inl UndefinedBehaviour"
| "max_element (x # xs) = Inr (foldl (\<lambda>largest y. if largest < y then y else largest) x xs)"

text \<open>
  test_files/lang_cpp/test_3_lis.cpp. The loop counters \<open>i\<close> and \<open>j\<close> start at 1 and 0
  and only count upwards below \<open>n\<close>, so they are natural numbers here. The entries of
  \<open>dp\<close> are lengths of subsequences of the first \<open>i\<close> elements (lemmas
  \<open>longest_outer_table\<close> and \<open>best_ending_le\<close> below), so \<open>dp[j] + 1\<close> stays within
  \<open>n\<close> and does not overflow.
\<close>

function longest_inner :: "int list \<Rightarrow> nat \<Rightarrow> nat \<Rightarrow> int list \<Rightarrow> int list" where
  "longest_inner arr i j dp =
     (if j < i
      then longest_inner arr i (j + 1)
             (if arr ! j < arr ! i then dp[i := max (dp ! i) (dp ! j + 1)] else dp)
      else dp)"
  by pat_completeness auto
termination
  by (relation "measure (\<lambda>(arr, i, j, dp). i - j)") auto

declare longest_inner.simps [simp del]

function longest_outer :: "int list \<Rightarrow> nat \<Rightarrow> nat \<Rightarrow> int list \<Rightarrow> int list" where
  "longest_outer arr n i dp =
     (if i < n then longest_outer arr n (i + 1) (longest_inner arr i 0 dp) else dp)"
  by pat_completeness auto
termination
  by (relation "measure (\<lambda>(arr, n, i, dp). n - i)") auto

declare longest_outer.simps [simp del]

definition longest_increasing_subsequence :: "int list \<Rightarrow> cpp_error + int" where
  "longest_increasing_subsequence arr =
     (if arr = [] then Inr 0
      else let n = size_to_int (length arr)
           in if n < 0 then Inl LengthError
              else max_element (longest_outer arr (nat n) 1 (replicate (nat n) 1)))"

definition main_lis_src :: "cpp_error + string \<times> int" where
  "main_lis_src =
     (case longest_increasing_subsequence [10, 9, 2, 5, 3, 7, 101, 18] of
        Inl e \<Rightarrow> Inl e
      | Inr result \<Rightarrow> Inr (''LIS length: '' @ show_int result @ endl, 0))"

text \<open>
  tests/languages/lang_cpp/test_3_lis.cpp. There is no emptiness test: on an empty vector
  \<open>dp\<close> is empty and \<open>max_element\<close> returns \<open>end()\<close>.
\<close>

function lis_inner :: "int list \<Rightarrow> nat \<Rightarrow> nat \<Rightarrow> int list \<Rightarrow> int list" where
  "lis_inner arr i j dp =
     (if j < i
      then lis_inner arr i (j + 1)
             (if arr ! i > arr ! j \<and> dp ! i < dp ! j + 1 then dp[i := dp ! j + 1] else dp)
      else dp)"
  by pat_completeness auto
termination
  by (relation "measure (\<lambda>(arr, i, j, dp). i - j)") auto

declare lis_inner.simps [simp del]

function lis_outer :: "int list \<Rightarrow> nat \<Rightarrow> nat \<Rightarrow> int list \<Rightarrow> int list" where
  "lis_outer arr n i dp =
     (if i < n then lis_outer arr n (i + 1) (lis_inner arr i 0 dp) else dp)"
  by pat_completeness auto
termination
  by (relation "measure (\<lambda>(arr, n, i, dp). n - i)") auto

declare lis_outer.simps [simp del]

definition lis :: "int list \<Rightarrow> cpp_error + int" where
  "lis arr =
     (let n = size_to_int (length arr)
      in if n < 0 then Inl LengthError
         else max_element (lis_outer arr (nat n) 1 (replicate (nat n) 1)))"

text \<open>
  The length of the longest strictly increasing subsequence, as the words say it: the
  largest length among the subsequences whose elements strictly increase.
\<close>

definition longest_strictly_increasing :: "int list \<Rightarrow> nat" where
  "longest_strictly_increasing arr =
     Max (length ` {ys \<in> set (subseqs arr). sorted_wrt (<) ys})"

text \<open>
  The quantity the table \<open>dp\<close> holds: \<open>ending arr k\<close> are the strictly increasing
  subsequences of the first \<open>k\<close> elements that the element at index \<open>k\<close> extends, and
  \<open>best_ending arr k\<close> is the largest length of an increasing subsequence whose last
  element is the one at index \<open>k\<close>.
\<close>

definition ending :: "int list \<Rightarrow> nat \<Rightarrow> int list set" where
  "ending arr k = {ys. subseq ys (take k arr) \<and> sorted_wrt (<) (ys @ [arr ! k])}"

definition best_ending :: "int list \<Rightarrow> nat \<Rightarrow> int" where
  "best_ending arr k = 1 + int (Max (length ` ending arr k))"

section \<open>The star-pattern fixtures\<close>

text \<open>
  test_files/lang_cpp/test_2_star.cpp. The bound \<open>2 * i - 1\<close> is evaluated at every
  test of the inner loop; every \<open>int\<close> operation is checked for overflow.
\<close>

function print_star_pattern_inner :: "int \<Rightarrow> int \<Rightarrow> string \<Rightarrow> cpp_error + string" where
  "print_star_pattern_inner i j out =
     (case checked (2 * i) of
        Inl e \<Rightarrow> Inl e
      | Inr t \<Rightarrow>
          (case checked (t - 1) of
             Inl e \<Rightarrow> Inl e
           | Inr b \<Rightarrow>
               if j < b
               then (case checked (j + 1) of
                       Inl e \<Rightarrow> Inl e
                     | Inr j' \<Rightarrow> print_star_pattern_inner i j' (out @ ''*''))
               else Inr out))"
  by pat_completeness auto
termination
  by (relation "measure (\<lambda>(i, j, out). nat (2 * i - 1 - j))")
     (auto simp: checked_def split: if_splits)

declare print_star_pattern_inner.simps [simp del]

function print_star_pattern_loop :: "int \<Rightarrow> int \<Rightarrow> string \<Rightarrow> cpp_error + string" where
  "print_star_pattern_loop N i out =
     (if i \<le> N
      then (case print_star_pattern_inner i 0 (if i > 1 then out @ '' '' else out) of
              Inl e \<Rightarrow> Inl e
            | Inr out' \<Rightarrow>
                (case checked (i + 1) of
                   Inl e \<Rightarrow> Inl e
                 | Inr i' \<Rightarrow> print_star_pattern_loop N i' out'))
      else Inr out)"
  by pat_completeness auto
termination
  by (relation "measure (\<lambda>(N, i, out). nat (N + 1 - i))")
     (auto simp: checked_def split: if_splits)

declare print_star_pattern_loop.simps [simp del]

definition print_star_pattern :: "int \<Rightarrow> cpp_error + string" where
  "print_star_pattern N =
     (case print_star_pattern_loop N 1 [] of
        Inl e \<Rightarrow> Inl e
      | Inr out \<Rightarrow> Inr (out @ endl))"

text \<open>\<open>main\<close> passes on the value that \<open>cin >> N\<close> stored and returns 0.\<close>

definition main_star_src :: "int \<Rightarrow> cpp_error + string \<times> int" where
  "main_star_src N =
     (case print_star_pattern N of Inl e \<Rightarrow> Inl e | Inr out \<Rightarrow> Inr (out, 0))"

text \<open>tests/languages/lang_cpp/test_2_star.cpp: the space follows every group.\<close>

function printStarPattern_inner :: "int \<Rightarrow> int \<Rightarrow> string \<Rightarrow> cpp_error + string" where
  "printStarPattern_inner i j out =
     (case checked (2 * i) of
        Inl e \<Rightarrow> Inl e
      | Inr t \<Rightarrow>
          (case checked (t - 1) of
             Inl e \<Rightarrow> Inl e
           | Inr b \<Rightarrow>
               if j < b
               then (case checked (j + 1) of
                       Inl e \<Rightarrow> Inl e
                     | Inr j' \<Rightarrow> printStarPattern_inner i j' (out @ ''*''))
               else Inr out))"
  by pat_completeness auto
termination
  by (relation "measure (\<lambda>(i, j, out). nat (2 * i - 1 - j))")
     (auto simp: checked_def split: if_splits)

declare printStarPattern_inner.simps [simp del]

function printStarPattern_loop :: "int \<Rightarrow> int \<Rightarrow> string \<Rightarrow> cpp_error + string" where
  "printStarPattern_loop N i out =
     (if i \<le> N
      then (case printStarPattern_inner i 0 out of
              Inl e \<Rightarrow> Inl e
            | Inr out' \<Rightarrow>
                (case checked (i + 1) of
                   Inl e \<Rightarrow> Inl e
                 | Inr i' \<Rightarrow> printStarPattern_loop N i' (out' @ '' '')))
      else Inr out)"
  by pat_completeness auto
termination
  by (relation "measure (\<lambda>(N, i, out). nat (N + 1 - i))")
     (auto simp: checked_def split: if_splits)

declare printStarPattern_loop.simps [simp del]

definition printStarPattern :: "int \<Rightarrow> cpp_error + string" where
  "printStarPattern N =
     (case printStarPattern_loop N 1 [] of
        Inl e \<Rightarrow> Inl e
      | Inr out \<Rightarrow> Inr (out @ endl))"

definition main_star_tests :: "int \<Rightarrow> cpp_error + string \<times> int" where
  "main_star_tests N =
     (case printStarPattern N of Inl e \<Rightarrow> Inl e | Inr out \<Rightarrow> Inr (out, 0))"

text \<open>
  Normalising whitespace, as the words say it: the output is cut at spaces and newlines
  and the empty pieces are dropped, which leaves the list of groups.
\<close>

definition is_space :: "char \<Rightarrow> bool" where
  "is_space c = (c = CHR '' '' \<or> c = CHR 0x0A)"

fun groups_acc :: "string \<Rightarrow> string \<Rightarrow> string list" where
  "groups_acc cur [] = (if cur = [] then [] else [cur])"
| "groups_acc cur (c # cs) =
     (if is_space c then (if cur = [] then groups_acc [] cs else cur # groups_acc [] cs)
      else groups_acc (cur @ [c]) cs)"

definition groups :: "string \<Rightarrow> string list" where
  "groups out = groups_acc [] out"


text \<open>The i-th star-group, as the words say it: exactly \<open>2 * i - 1\<close> stars.\<close>

definition star_group :: "int \<Rightarrow> string" where
  "star_group i = replicate (nat (2 * i - 1)) (CHR ''*'')"

section \<open>The probe programs and their environment\<close>

text \<open>
  A run of a probe is observed as the sequence of the strings it prints and of the calls
  it makes to the system and the allocator (pure helpers such as \<open>strerror\<close>, \<open>htons\<close>
  and \<open>strcmp\<close> are not recorded). What the system answers to each call is a parameter of
  the run: every program below takes the results of its calls as an environment, one field
  per call site, indexed by the iteration where the call sits in a loop.
\<close>

datatype arg = I int | S string

datatype event = Print string | Call string "arg list"

text \<open>Two views of a run: the arguments of its calls of one function, and what it prints.\<close>

fun calls_of :: "string \<Rightarrow> event list \<Rightarrow> arg list list" where
  "calls_of name [] = []"
| "calls_of name (Call name' args # es) =
     (if name' = name then args # calls_of name es else calls_of name es)"
| "calls_of name (Print str # es) = calls_of name es"

fun prints :: "event list \<Rightarrow> string list" where
  "prints [] = []"
| "prints (Print str # es) = str # prints es"
| "prints (Call name args # es) = prints es"

text \<open>The marks of the report lines, in UTF-8: U+2713, U+26A0 and U+2717.\<close>

definition check_mark :: string where
  "check_mark = [CHR 0xE2, CHR 0x9C, CHR 0x93]"

definition warning_mark :: string where
  "warning_mark = [CHR 0xE2, CHR 0x9A, CHR 0xA0]"

definition cross_mark :: string where
  "cross_mark = [CHR 0xE2, CHR 0x9C, CHR 0x97]"

text \<open>Every state of a run carries the events so far.\<close>

record run =
  trace :: "event list"

text \<open>What every process can ask about itself, and the status that \<open>wait\<close> stores.\<close>

record proc_env =
  getpid :: int
  getppid :: int
  wait_status :: int

text \<open>
  \<open>WIFEXITED(status)\<close> is \<open>(status & 0x7f) == 0\<close> and \<open>WEXITSTATUS(status)\<close> is
  \<open>(status & 0xff00) >> 8\<close>.
\<close>

definition WIFEXITED :: "int \<Rightarrow> bool" where
  "WIFEXITED status = (status mod 128 = 0)"

definition WEXITSTATUS :: "int \<Rightarrow> int" where
  "WEXITSTATUS status = (status mod 65536) div 256"

text \<open>How one pass through a loop body ends, and how the whole loop is left.\<close>

datatype 's flow =
    Continue 's           \<comment> \<open>the body ran to its end\<close>
  | Break 's              \<comment> \<open>\<open>break\<close>, or the loop test failed\<close>
  | Exit 's int           \<comment> \<open>the process called \<open>exit\<close>\<close>
  | Fault cpp_error

datatype 's left =
    Left 's               \<comment> \<open>by \<open>break\<close> or by the loop test\<close>
  | Exited 's int
  | Faulted cpp_error

section \<open>The memory-limit-exceeded fixtures\<close>

text \<open>
  An operation that allocates either succeeds or throws: \<open>std::bad_alloc\<close>, or another
  exception derived from \<open>std::exception\<close> (a \<open>std::length_error\<close>, say) with its
  \<open>what()\<close> string. The environment gives the outcome of the k-th such operation.
\<close>

datatype exn = BadAlloc | StdException string

text \<open>
  test_files/lang_cpp/test_5_mle.cpp. Each pass constructs \<open>arr\<close> and copies it into
  \<open>data\<close>; \<open>size\<close> (here \<open>sz\<close>) is an \<open>int\<close>. The result of the loop is the exception that left
  the \<open>try\<close> block, if any.
\<close>

function mle_src_loop :: "(nat \<Rightarrow> exn option) \<Rightarrow> int \<Rightarrow> nat \<Rightarrow> cpp_error + exn option" where
  "mle_src_loop alloc sz k =
     (case alloc k of
        Some e \<Rightarrow> Inr (Some e)
      | None \<Rightarrow>
          (case alloc (k + 1) of
             Some e \<Rightarrow> Inr (Some e)
           | None \<Rightarrow>
               (case checked (sz * 2) of
                  Inl err \<Rightarrow> Inl err
                | Inr size' \<Rightarrow>
                    if size' \<le> 0 then Inr None
                    else mle_src_loop alloc size' (k + 2))))"
  by pat_completeness auto
termination
  by (relation "measure (\<lambda>(alloc, sz, k). nat (INT_MAX + 1 - sz))")
     (auto simp: checked_def INT_MAX_def split: if_splits)

declare mle_src_loop.simps [simp del]

definition main_mle_src :: "(nat \<Rightarrow> exn option) \<Rightarrow> cpp_error + string \<times> int" where
  "main_mle_src alloc =
     (case mle_src_loop alloc 1 0 of
        Inl err \<Rightarrow> Inl err
      | Inr None \<Rightarrow> Inr ([], 0)
      | Inr (Some BadAlloc) \<Rightarrow> Inr (''Memory allocation failed'' @ endl, 0)
      | Inr (Some (StdException what)) \<Rightarrow> Inr (''Error: '' @ what @ endl, 0))"

text \<open>
  tests/languages/lang_cpp/test_5_mle.cpp. \<open>size\<close> (here \<open>sz\<close>) is a \<open>size_t\<close>, which wraps; the
  \<open>try\<close> block sits inside \<open>while (1)\<close> and catches \<open>bad_alloc\<close> only, so any other
  exception ends the process through \<open>std::terminate\<close>. The loop has no other exit: a run
  in which no construction ever throws does not return.
\<close>

datatype ending =
    Returned int                     \<comment> \<open>\<open>main\<close> returned\<close>
  | Exit_called int                  \<comment> \<open>the process called \<open>exit\<close>\<close>
  | Terminated                       \<comment> \<open>\<open>std::terminate\<close> after an uncaught exception\<close>
  | Replaced string "string list"    \<comment> \<open>an \<open>exec\<close> call put another program in its place\<close>

partial_function (option) mle_tests_loop ::
  "(nat \<Rightarrow> exn option) \<Rightarrow> 64 word \<Rightarrow> nat \<Rightarrow> (string \<times> ending) option" where
  "mle_tests_loop alloc sz k =
     (case alloc k of
        None \<Rightarrow> mle_tests_loop alloc (sz * 2) (k + 1)
      | Some BadAlloc \<Rightarrow>
          Some (''Memory allocation failed at size = '' @ show_nat (unat sz) @ endl,
                Returned 0)
      | Some (StdException what) \<Rightarrow> Some ([], Terminated))"

declare mle_tests_loop.simps [code]

definition main_mle_tests :: "(nat \<Rightarrow> exn option) \<Rightarrow> (string \<times> ending) option" where
  "main_mle_tests alloc = mle_tests_loop alloc 1 0"

section \<open>timeout.c\<close>

text \<open>
  \<open>time_t\<close> is a 64-bit signed integer, printed with \<open>%ld\<close>; the environment gives the
  value that the k-th call of \<open>time(NULL)\<close> returns.
\<close>

definition show_time :: "64 word \<Rightarrow> string" where
  "show_time t = show_int (sint t)"

function second_loop :: "int \<Rightarrow> event list \<Rightarrow> event list" where
  "second_loop i t =
     (if i \<le> 30
      then second_loop (i + 1)
             (t @ [Print (''Second '' @ show_int i @ ''/30'' @ endl),
                       Call ''fflush'' [],
                       Call ''sleep'' [I 1]])
      else t)"
  by pat_completeness auto
termination
  by (relation "measure (\<lambda>(i, t). nat (31 - i))") auto

declare second_loop.simps [simp del]

definition test_timeouts :: "(nat \<Rightarrow> 64 word) \<Rightarrow> event list" where
  "test_timeouts time =
     (let t1 = [Print (''=== C Timeout Test ==='' @ endl),
                Print (''Testing 2-second operation...'' @ endl),
                Call ''time'' [],
                Call ''sleep'' [I 2],
                Call ''time'' [],
                Print (check_mark @ '' 2-second operation completed in '' @
                       show_time (time 1 - time 0) @ '' seconds'' @ endl),
                Print (''Testing 5-second operation...'' @ endl),
                Call ''time'' [],
                Call ''sleep'' [I 5],
                Call ''time'' [],
                Print (check_mark @ '' 5-second operation completed in '' @
                       show_time (time 3 - time 2) @ '' seconds'' @ endl),
                Print (''Testing 30-second operation (should be terminated)...'' @ endl),
                Call ''time'' []];
          t2 = second_loop 1 t1
      in t2 @ [Call ''time'' [],
               Print (warning_mark @ '' 30-second operation completed in '' @
                      show_time (time 5 - time 4) @ '' seconds (not terminated)'' @ endl)])"

text \<open>
  \<open>infinite_loop_test\<close>: \<open>counter\<close> is an \<open>unsigned long long\<close> and wraps. \<open>ticks\<close>
  counts the calls of \<open>time\<close>, to ask the environment for the next value.
\<close>

record loop_state = run +
  counter :: "64 word"
  start :: "64 word"
  last_print :: "64 word"
  ticks :: nat

definition infinite_loop_body :: "(nat \<Rightarrow> 64 word) \<Rightarrow> loop_state \<Rightarrow> loop_state" where
  "infinite_loop_body time s =
     (let counter' = counter s + 1;
          now = time (ticks s);
          s1 = s\<lparr>counter := counter', ticks := ticks s + 1,
                  trace := trace s @ [Call ''time'' []]\<rparr>
      in if 1 \<le>s now - last_print s
         then s1\<lparr>last_print := now,
                 trace := trace s1 @
                   [Print (''Loop iteration '' @ show_nat (unat counter') @ '', elapsed: '' @
                           show_time (now - start s) @ '' seconds'' @ endl),
                    Call ''fflush'' []]\<rparr>
         else s1)"

text \<open>\<open>while (1)\<close>: the test is the constant 1, and the body holds no \<open>break\<close> or \<open>return\<close>.\<close>

partial_function (option) infinite_loop_while ::
  "(nat \<Rightarrow> 64 word) \<Rightarrow> loop_state \<Rightarrow> loop_state option" where
  "infinite_loop_while time s =
     (if (1::int) \<noteq> 0 then infinite_loop_while time (infinite_loop_body time s) else Some s)"

declare infinite_loop_while.simps [code]

definition infinite_loop_start :: "(nat \<Rightarrow> 64 word) \<Rightarrow> loop_state" where
  "infinite_loop_start time =
     \<lparr>trace = [Print (''=== C Infinite Loop Test ==='' @ endl),
               Print (''Starting infinite loop (should be terminated by timeout)...'' @ endl),
               Call ''time'' []],
      counter = 0, start = time 0, last_print = time 0, ticks = 1\<rparr>"

definition infinite_loop_test :: "(nat \<Rightarrow> 64 word) \<Rightarrow> event list option" where
  "infinite_loop_test time =
     (case infinite_loop_while time (infinite_loop_start time) of
        None \<Rightarrow> None
      | Some s \<Rightarrow> Some (trace s))"

text \<open>\<open>main\<close>: \<open>argc\<close> is the length of \<open>argv\<close>. The result is \<open>None\<close> when \<open>main\<close> does not return.\<close>

definition main_timeout :: "string list \<Rightarrow> (nat \<Rightarrow> 64 word) \<Rightarrow> (event list \<times> int) option" where
  "main_timeout argv time =
     (if length argv > 1 \<and> argv ! 1 = ''infinite''
      then (case infinite_loop_test time of
              None \<Rightarrow> None
            | Some t \<Rightarrow> Some (t, 0))
      else Some (test_timeouts time, 0))"

section \<open>memory.c\<close>

text \<open>
  \<open>malloc\<close> returns an address, 0 for \<open>NULL\<close>: the environment gives the result of the
  small allocation and of the allocation in the i-th pass of the loop. \<open>size_t\<close> values
  are integers kept within \<open>0 \<le> v < 2 ^ 64\<close> by reducing modulo \<open>2 ^ 64\<close>. The counters \<open>i\<close> and \<open>allocated_chunks\<close>
  are \<open>int\<close>s that the loop test keeps at or below 200.
\<close>

definition MB :: int where
  "MB = 1024 * 1024"

definition chunk_size :: int where
  "chunk_size = (5 * MB) mod 2 ^ 64"

record mem_env =
  malloc_small :: int
  malloc_chunk :: "int \<Rightarrow> int"

text \<open>
  \<open>ptrs\<close> has 200 entries, indeterminate (\<open>None\<close>) until written; storing outside the
  array or reading an indeterminate entry is undefined.
\<close>

record mem_state = run +
  ptrs :: "int option list"
  allocated_chunks :: int
  total_allocated :: int

definition alloc_body :: "mem_env \<Rightarrow> int \<Rightarrow> mem_state \<Rightarrow> mem_state flow" where
  "alloc_body env i s =
     (if 0 \<le> i \<and> nat i < length (ptrs s)
      then
        let p = malloc_chunk env i;
            s1 = s\<lparr>ptrs := (ptrs s)[nat i := Some p],
                    trace := trace s @ [Call ''malloc'' [I chunk_size]]\<rparr>
        in if p = 0
           then Break (s1\<lparr>trace := trace s1 @
                  [Print (check_mark @ '' Memory allocation failed at chunk '' @ show_int i @
                          '' (limit reached)'' @ endl),
                   Print (check_mark @ '' Total allocated before failure: '' @
                          show_nat (nat (total_allocated s1 div MB)) @ '' MB'' @ endl)]\<rparr>)
           else
             let total = (total_allocated s1 + chunk_size) mod 2 ^ 64;
                 s2 = s1\<lparr>allocated_chunks := allocated_chunks s1 + 1,
                         total_allocated := total,
                         trace := trace s1 @
                           [Call ''memset'' [I p, I 0x55, I chunk_size],
                            Print (check_mark @ '' Allocated chunk '' @ show_int (i + 1) @ '': '' @
                                   show_nat (nat (total div MB)) @ '' MB total'' @ endl),
                            Call ''usleep'' [I 100000]]\<rparr>
             in if total > (500 * MB) mod 2 ^ 64
                then Break (s2\<lparr>trace := trace s2 @
                       [Print (warning_mark @ '' Allocated over 500 MB, stopping test'' @ endl)]\<rparr>)
                else Continue s2
      else Fault UndefinedBehaviour)"

function alloc_for :: "mem_env \<Rightarrow> int \<Rightarrow> mem_state \<Rightarrow> mem_state left" where
  "alloc_for env i s =
     (if i < 200
      then (case alloc_body env i s of
              Continue s' \<Rightarrow> alloc_for env (i + 1) s'
            | Break s' \<Rightarrow> Left s'
            | Exit s' code \<Rightarrow> Exited s' code
            | Fault e \<Rightarrow> Faulted e)
      else Left s)"
  by pat_completeness auto
termination
  by (relation "measure (\<lambda>(env, i, s). nat (200 - i))") auto

declare alloc_for.simps [simp del]

text \<open>The clean-up loop frees the first \<open>allocated_chunks\<close> entries that are not \<open>NULL\<close>.\<close>

function free_for :: "int \<Rightarrow> mem_state \<Rightarrow> mem_state left" where
  "free_for i s =
     (if i < allocated_chunks s
      then (if 0 \<le> i \<and> nat i < length (ptrs s)
            then (case ptrs s ! nat i of
                    None \<Rightarrow> Faulted UndefinedBehaviour
                  | Some p \<Rightarrow>
                      free_for (i + 1)
                        (if p \<noteq> 0 then s\<lparr>trace := trace s @ [Call ''free'' [I p]]\<rparr> else s))
            else Faulted UndefinedBehaviour)
      else Left s)"
  by pat_completeness auto
termination
  by (relation "measure (\<lambda>(i, s). nat (allocated_chunks s - i))") auto

declare free_for.simps [simp del]

definition alloc_start :: "event list \<Rightarrow> mem_state" where
  "alloc_start t =
     \<lparr>trace = t, ptrs = replicate 200 None, allocated_chunks = 0, total_allocated = 0\<rparr>"

definition main_memory :: "mem_env \<Rightarrow> cpp_error + event list \<times> int" where
  "main_memory env =
     (let t0 = [Print (''=== C Memory Allocation Test ==='' @ endl),
                Call ''malloc'' [I MB]]
      in if malloc_small env \<noteq> 0
         then
           let t1 = t0 @
                 [Print (check_mark @ '' Small allocation (1 MB) successful'' @ endl),
                  Call ''memset'' [I (malloc_small env), I 0xAA, I MB],
                  Call ''free'' [I (malloc_small env)],
                  Print (''Testing progressive allocation in '' @
                         show_nat (nat (chunk_size div MB)) @ '' MB chunks...'' @ endl)]
           in (case alloc_for env 0 (alloc_start t1) of
                 Faulted e \<Rightarrow> Inl e
               | Exited s code \<Rightarrow> Inr (trace s, code)
               | Left s \<Rightarrow>
                   (case free_for 0
                           (s\<lparr>trace := trace s @
                              [Print (''Final stats: '' @ show_int (allocated_chunks s) @
                                      '' chunks allocated, '' @
                                      show_nat (nat (total_allocated s div MB)) @
                                      '' MB total'' @ endl)]\<rparr>) of
                      Faulted e \<Rightarrow> Inl e
                    | Exited s' code \<Rightarrow> Inr (trace s', code)
                    | Left s' \<Rightarrow>
                        Inr (trace s' @
                             [Print (check_mark @ '' Memory cleanup completed'' @ endl)], 0)))
         else Inr (t0 @ [Print (cross_mark @ '' Small allocation failed'' @ endl)], 1))"

text \<open>
  The points of the run of the allocation loop: \<open>alloc_head env s0 n\<close> is the state in
  which the loop, started in \<open>s0\<close>, arrives at its test for the pass with counter \<open>n\<close>,
  and \<open>None\<close> when the loop is left before.
\<close>

fun alloc_head :: "mem_env \<Rightarrow> mem_state \<Rightarrow> nat \<Rightarrow> mem_state option" where
  "alloc_head env s0 0 = Some s0"
| "alloc_head env s0 (Suc n) =
     (case alloc_head env s0 n of
        None \<Rightarrow> None
      | Some s \<Rightarrow>
          if int n < 200
          then (case alloc_body env (int n) s of Continue s' \<Rightarrow> Some s' | _ \<Rightarrow> None)
          else None)"

text \<open>
  The number of passes, counted from the first, whose \<open>malloc\<close> does not return
  \<open>NULL\<close>, within the 200 passes that the loop test allows.
\<close>

definition granted :: "mem_env \<Rightarrow> nat" where
  "granted env = length (takeWhile (\<lambda>i. malloc_chunk env (int i) \<noteq> 0) [0..<200])"

text \<open>
  The lines of the loop as \<open>printf\<close> formats them when every chunk so far was granted:
  after the chunk of pass \<open>i\<close> the total is \<open>5 * (i + 1)\<close> MB, and the loop is left
  after \<open>k\<close> chunks either at the \<open>NULL\<close> of pass \<open>k\<close> or, with 101 chunks, over 500 MB.
\<close>

definition chunk_line :: "nat \<Rightarrow> string" where
  "chunk_line i =
     check_mark @ '' Allocated chunk '' @ show_int (int i + 1) @ '': '' @
     show_nat (5 * (i + 1)) @ '' MB total'' @ endl"

definition leaving_lines :: "nat \<Rightarrow> string list" where
  "leaving_lines k =
     (if k < 101
      then [check_mark @ '' Memory allocation failed at chunk '' @ show_int (int k) @
            '' (limit reached)'' @ endl,
            check_mark @ '' Total allocated before failure: '' @ show_nat (5 * k) @
            '' MB'' @ endl]
      else [warning_mark @ '' Allocated over 500 MB, stopping test'' @ endl])"

section \<open>fork.c\<close>

text \<open>
  The run of one process. \<open>fork\<close> returns -1 when it fails, 0 in the child and the
  child's pid in the parent: the environment gives the result of the first call and of
  the call in the i-th pass of the loop, as this process sees them, with the text of
  \<open>strerror(errno)\<close> after a failure.
\<close>

record fork_env = proc_env +
  fork_basic :: int
  fork_basic_error :: string
  fork_multi :: "int \<Rightarrow> int"
  fork_multi_error :: "int \<Rightarrow> string"
  waitpid_result :: "int \<Rightarrow> int"

text \<open>
  \<open>children\<close> has 50 entries, indeterminate until written. \<open>i\<close> and \<open>created_count\<close>
  are \<open>int\<close>s that stay at or below \<open>max_processes\<close>.
\<close>

record fork_state = run +
  children :: "int option list"
  created_count :: int

definition max_processes :: int where
  "max_processes = 50"

definition fork_body :: "fork_env \<Rightarrow> int \<Rightarrow> fork_state \<Rightarrow> fork_state flow" where
  "fork_body env i s =
     (let pid = fork_multi env i;
          s1 = s\<lparr>trace := trace s @ [Call ''fork'' []]\<rparr>
      in if pid = -1
         then Break (s1\<lparr>trace := trace s1 @
                [Print (check_mark @ '' Process creation blocked at '' @ show_int i @
                        '' processes: '' @ fork_multi_error env i @ endl)]\<rparr>)
         else if pid = 0
         then Exit (s1\<lparr>trace := trace s1 @
                [Call ''getpid'' [],
                 Print (''Child '' @ show_int i @ '': PID '' @ show_int (getpid env) @ endl),
                 Call ''sleep'' [I 5]]\<rparr>) i
         else if 0 \<le> created_count s1 \<and> nat (created_count s1) < length (children s1)
         then Continue (s1\<lparr>children := (children s1)[nat (created_count s1) := Some pid],
                           created_count := created_count s1 + 1,
                           trace := trace s1 @
                             [Print (check_mark @ '' Created child '' @ show_int i @
                                     '': PID '' @ show_int pid @ endl),
                              Call ''usleep'' [I 100000]]\<rparr>)
         else Fault UndefinedBehaviour)"

function fork_for :: "fork_env \<Rightarrow> int \<Rightarrow> fork_state \<Rightarrow> fork_state left" where
  "fork_for env i s =
     (if i < max_processes
      then (case fork_body env i s of
              Continue s' \<Rightarrow> fork_for env (i + 1) s'
            | Break s' \<Rightarrow> Left s'
            | Exit s' code \<Rightarrow> Exited s' code
            | Fault e \<Rightarrow> Faulted e)
      else Left s)"
  by pat_completeness auto
termination
  by (relation "measure (\<lambda>(env, i, s). nat (max_processes - i))") auto

declare fork_for.simps [simp del]

text \<open>The loop that waits for the children reads the first \<open>created_count\<close> entries.\<close>

function wait_for :: "fork_env \<Rightarrow> int \<Rightarrow> fork_state \<Rightarrow> fork_state left" where
  "wait_for env i s =
     (if i < created_count s
      then (if 0 \<le> i \<and> nat i < length (children s)
            then (case children s ! nat i of
                    None \<Rightarrow> Faulted UndefinedBehaviour
                  | Some pid \<Rightarrow>
                      wait_for env (i + 1)
                        (s\<lparr>trace := trace s @
                             (Call ''waitpid'' [I pid] #
                              (if waitpid_result env i > 0
                               then [Print (''Child '' @ show_int i @ '' (PID '' @
                                            show_int (waitpid_result env i) @
                                            '') completed'' @ endl)]
                               else []))\<rparr>))
            else Faulted UndefinedBehaviour)
      else Left s)"
  by pat_completeness auto
termination
  by (relation "measure (\<lambda>(env, i, s). nat (created_count s - i))") auto

declare wait_for.simps [simp del]

definition fork_start :: "event list \<Rightarrow> fork_state" where
  "fork_start t = \<lparr>trace = t, children = replicate 50 None, created_count = 0\<rparr>"

text \<open>
  \<open>main\<close>: the result is the trace of this process and its exit status; the child of
  the first \<open>fork\<close> calls \<open>exit(0)\<close>, a child of the loop calls \<open>exit(i)\<close>.
  \<open>main_fork_multi\<close> is the part of \<open>main\<close> from the test of multiple forks on.
\<close>

definition main_fork_multi :: "fork_env \<Rightarrow> event list \<Rightarrow> cpp_error + event list \<times> int" where
  "main_fork_multi env t =
     (case fork_for env 0
             (fork_start (t @ [Print (endl @ ''Testing multiple process creation...'' @ endl)])) of
        Faulted e \<Rightarrow> Inl e
      | Exited s code \<Rightarrow> Inr (trace s, code)
      | Left s \<Rightarrow>
          (case wait_for env 0
                  (s\<lparr>trace := trace s @
                     [Print (''Waiting for '' @ show_int (created_count s) @
                             '' children to complete...'' @ endl)]\<rparr>) of
             Faulted e \<Rightarrow> Inl e
           | Exited s' code \<Rightarrow> Inr (trace s', code)
           | Left s' \<Rightarrow>
               Inr (trace s' @
                    [Print (check_mark @ '' Created '' @ show_int (created_count s') @
                            '' child processes total'' @ endl)], 0)))"

definition main_fork :: "fork_env \<Rightarrow> cpp_error + event list \<times> int" where
  "main_fork env =
     (let t0 = [Print (''=== C Fork/Process Test ==='' @ endl),
                Call ''getpid'' [],
                Print (''Main process PID: '' @ show_int (getpid env) @ endl),
                Call ''fork'' []];
          pid = fork_basic env
      in if pid = -1
         then main_fork_multi env
                (t0 @ [Print (check_mark @ '' Fork blocked: '' @ fork_basic_error env @ endl)])
         else if pid = 0
         then Inr (t0 @
                [Call ''getpid'' [],
                 Print (check_mark @ '' Fork successful - Child PID: '' @
                        show_int (getpid env) @ endl),
                 Call ''getppid'' [],
                 Print (''Child parent PID: '' @ show_int (getppid env) @ endl),
                 Call ''sleep'' [I 1]], 0)
         else main_fork_multi env
                (t0 @ [Print (check_mark @ '' Fork successful - Parent created child PID: '' @
                              show_int pid @ endl),
                       Call ''wait'' [],
                       Print (check_mark @ '' Child process completed with status: '' @
                              show_int (WEXITSTATUS (wait_status env)) @ endl)]))"

text \<open>
  The points of the run of the multi-fork loop: the state in which the loop, started in
  \<open>s0\<close>, arrives at its test for the pass with counter \<open>n\<close>.
\<close>

fun fork_head :: "fork_env \<Rightarrow> fork_state \<Rightarrow> nat \<Rightarrow> fork_state option" where
  "fork_head env s0 0 = Some s0"
| "fork_head env s0 (Suc n) =
     (case fork_head env s0 n of
        None \<Rightarrow> None
      | Some s \<Rightarrow>
          if int n < max_processes
          then (case fork_body env (int n) s of Continue s' \<Rightarrow> Some s' | _ \<Rightarrow> None)
          else None)"

text \<open>The number of forks that did not fail in the passes before \<open>n\<close>.\<close>

definition forks_succeeded :: "fork_env \<Rightarrow> nat \<Rightarrow> nat" where
  "forks_succeeded env n = length (filter (\<lambda>j. fork_multi env (int j) \<noteq> -1) [0..<n])"

text \<open>
  The number of passes, counted from the first, in which \<open>fork\<close> returns in the parent
  (neither -1 nor 0), within the 50 passes that the loop test allows.
\<close>

definition forked :: "fork_env \<Rightarrow> nat" where
  "forked env =
     length (takeWhile (\<lambda>i. fork_multi env (int i) \<noteq> - 1 \<and> fork_multi env (int i) \<noteq> 0)
               [0..<50])"

text \<open>
  The lines of the loop as \<open>printf\<close> formats them: for the child created in pass \<open>i\<close>,
  and on leaving the loop in pass \<open>k\<close>, in the parent after a failed \<open>fork\<close> or in a
  new child; nothing is printed when the loop test ends the loop after 50 passes.
\<close>

definition created_line :: "fork_env \<Rightarrow> nat \<Rightarrow> string" where
  "created_line env i =
     check_mark @ '' Created child '' @ show_int (int i) @ '': PID '' @
     show_int (fork_multi env (int i)) @ endl"

definition fork_leaving_lines :: "fork_env \<Rightarrow> nat \<Rightarrow> string list" where
  "fork_leaving_lines env k =
     (if k < 50
      then (if fork_multi env (int k) = 0
            then [''Child '' @ show_int (int k) @ '': PID '' @ show_int (getpid env) @ endl]
            else [check_mark @ '' Process creation blocked at '' @ show_int (int k) @
                  '' processes: '' @ fork_multi_error env (int k) @ endl])
      else [])"

text \<open>What the parent prints for the i-th child in the loop that waits.\<close>

definition waited_lines :: "fork_env \<Rightarrow> nat \<Rightarrow> string list" where
  "waited_lines env i =
     (if waitpid_result env (int i) > 0
      then [''Child '' @ show_int (int i) @ '' (PID '' @ show_int (waitpid_result env (int i)) @
            '') completed'' @ endl]
      else [])"

section \<open>syscalls.c\<close>

text \<open>
  The run of one process. The environment gives the result of each call as this process
  sees it, with the text of \<open>strerror(errno)\<close> after a failure. \<open>execl\<close> returns only
  when it fails: \<open>execl_error\<close> is \<open>None\<close> when the call succeeds and the process
  goes on as \<open>/bin/echo\<close>.
\<close>

record sys_env = proc_env +
  getuid :: int
  getgid :: int
  access_result :: int
  access_error :: string
  chmod_result :: int
  chmod_error :: string
  fork_first :: int
  fork_first_error :: string
  fork_second :: int
  execl_error :: "string option"
  system_result :: int

text \<open>From \<open>int result = system(...)\<close> to the end of \<open>main\<close>.\<close>

definition test_system :: "sys_env \<Rightarrow> event list \<Rightarrow> event list \<times> ending" where
  "test_system env t =
     (t @ [Call ''system'' [S (''echo '' @ [CHR 0x27] @ ''Hello from system()'' @ [CHR 0x27])]] @
          (if system_result env = 0
           then [Print (warning_mark @ '' system() call successful'' @ endl)]
           else [Print (check_mark @ '' system() call blocked or failed'' @ endl)]),
      Returned 0)"

text \<open>From the second \<open>fork\<close> on.\<close>

definition test_exec :: "sys_env \<Rightarrow> event list \<Rightarrow> event list \<times> ending" where
  "test_exec env t =
     (let pid = fork_second env;
          t1 = t @ [Call ''fork'' []]
      in if pid = 0
         then (case execl_error env of
                 None \<Rightarrow>
                   (t1 @ [Call ''execl'' [S ''/bin/echo'', S ''echo'', S ''Hello from exec'']],
                    Replaced ''/bin/echo'' [''echo'', ''Hello from exec''])
               | Some err \<Rightarrow>
                   (t1 @ [Call ''execl'' [S ''/bin/echo'', S ''echo'', S ''Hello from exec''],
                          Print (check_mark @ '' execl() blocked: '' @ err @ endl)],
                    Exit_called 1))
         else if pid > 0
         then test_system env
                (t1 @ [Call ''wait'' []] @
                 (if WIFEXITED (wait_status env) \<and> WEXITSTATUS (wait_status env) = 0
                  then [Print (warning_mark @ '' execl() successful'' @ endl)]
                  else [Print (check_mark @ '' execl() blocked or failed'' @ endl)]))
         else test_system env t1)"

text \<open>From the first \<open>fork\<close> on.\<close>

definition test_fork :: "sys_env \<Rightarrow> event list \<Rightarrow> event list \<times> ending" where
  "test_fork env t =
     (let pid = fork_first env;
          t1 = t @ [Call ''fork'' []]
      in if pid = -1
         then test_exec env
                (t1 @ [Print (check_mark @ '' fork() blocked: '' @ fork_first_error env @ endl)])
         else if pid = 0
         then (t1 @ [Print (warning_mark @ '' fork() successful - child process'' @ endl)],
               Exit_called 0)
         else test_exec env
                (t1 @ [Print (warning_mark @ '' fork() successful - parent process'' @ endl),
                       Call ''wait'' []]))"

definition main_syscalls :: "sys_env \<Rightarrow> event list \<times> ending" where
  "main_syscalls env =
     test_fork env
       ([Print (''=== C System Call Test ==='' @ endl),
         Call ''getpid'' [],
         Print (''Process ID: '' @ show_int (getpid env) @ endl),
         Call ''getppid'' [],
         Print (''Parent PID: '' @ show_int (getppid env) @ endl),
         Call ''getuid'' [],
         Print (''User ID: '' @ show_int (getuid env) @ endl),
         Call ''getgid'' [],
         Print (''Group ID: '' @ show_int (getgid env) @ endl),
         Call ''access'' [S ''.'', I 0]] @
        (if access_result env = 0
         then [Print (check_mark @ '' access() allowed'' @ endl)]
         else [Print (cross_mark @ '' access() failed: '' @ access_error env @ endl)]) @
        [Call ''chmod'' [S ''.'', I 493]] @
        (if chmod_result env = 0
         then [Print (warning_mark @ '' chmod() allowed'' @ endl)]
         else [Print (check_mark @ '' chmod() blocked: '' @ chmod_error env @ endl)]))"

text \<open>The names of the functions that a run calls, in order.\<close>

fun call_names :: "event list \<Rightarrow> string list" where
  "call_names [] = []"
| "call_names (Call name args # es) = name # call_names es"
| "call_names (Print str # es) = call_names es"

text \<open>
  The dangerous-operation set, as the words say it: \<open>chmod\<close>, the \<open>exec\<close> family (of
  which the probe uses \<open>execl\<close>) and \<open>system\<close>.
\<close>

definition dangerous_operations :: "string set" where
  "dangerous_operations = {''chmod'', ''execl'', ''system''}"

text \<open>An environment in which every probed operation is refused, with \<open>EPERM\<close>.\<close>

definition refusing :: sys_env where
  "refusing =
     \<lparr>getpid = 100, getppid = 1, wait_status = 0, getuid = 1000, getgid = 1000,
      access_result = 0, access_error = [],
      chmod_result = - 1, chmod_error = ''Operation not permitted'',
      fork_first = - 1, fork_first_error = ''Operation not permitted'',
      fork_second = - 1, execl_error = Some ''Operation not permitted'',
      system_result = - 1\<rparr>"

section \<open>network.c\<close>

text \<open>
  The environment gives the descriptor that each \<open>socket\<close> call returns (negative when
  the call fails) and the results of \<open>bind\<close> and of the \<open>connect\<close> in the i-th pass.
\<close>

record net_env =
  socket_first :: int
  bind_result :: int
  socket_loop :: "int \<Rightarrow> int"
  connect_result :: "int \<Rightarrow> int"

text \<open>The table \<open>test_targets\<close>: ip, port and name.\<close>

definition test_targets :: "(string \<times> int \<times> string) list" where
  "test_targets =
     [(''8.8.8.8'', 53, ''Google DNS''),
      (''127.0.0.1'', 22, ''Local SSH''),
      (''127.0.0.1'', 80, ''Local HTTP'')]"

definition num_targets :: int where
  "num_targets = int (length test_targets)"

text \<open>
  One pass of the loop over the targets; \<open>i\<close> is within the table by the loop test.
  \<open>continue\<close> goes on with the next pass.
\<close>

definition connect_body :: "net_env \<Rightarrow> int \<Rightarrow> event list \<Rightarrow> event list" where
  "connect_body env i t =
     (let sock = socket_loop env i;
          t1 = t @ [Call ''socket'' []]
      in if sock < 0 then t1
         else
           (case test_targets ! nat i of
              (ip, port, name) \<Rightarrow>
                t1 @ [Call ''inet_pton'' [S ip],
                      Call ''connect'' [I sock, S ip, I port]] @
                (if connect_result env i = 0
                 then [Print (warning_mark @ '' Connected to '' @ name @ '' ('' @ ip @ '':'' @
                              show_int port @ '')'' @ endl)]
                 else [Print (check_mark @ '' Cannot connect to '' @ name @ '' ('' @ ip @ '':'' @
                              show_int port @ '')'' @ endl)]) @
                [Call ''close'' [I sock]]))"

function connect_for :: "net_env \<Rightarrow> int \<Rightarrow> event list \<Rightarrow> event list" where
  "connect_for env i t =
     (if i < num_targets then connect_for env (i + 1) (connect_body env i t) else t)"
  by pat_completeness auto
termination
  by (relation "measure (\<lambda>(env, i, t). nat (num_targets - i))") auto

declare connect_for.simps [simp del]

definition main_network :: "net_env \<Rightarrow> event list \<times> int" where
  "main_network env =
     (let t0 = [Print (''=== C Network Test ==='' @ endl), Call ''socket'' []];
          sock = socket_first env
      in if sock < 0
         then (t0 @ [Print (cross_mark @ '' Socket creation failed'' @ endl)], 1)
         else
           (connect_for env 0
              (t0 @ [Print (check_mark @ '' Socket creation successful'' @ endl),
                     Call ''bind'' [I sock]] @
                    (if bind_result env = 0
                     then [Print (check_mark @ '' Local bind successful'' @ endl)]
                     else [Print (cross_mark @ '' Local bind failed'' @ endl)]) @
                    [Call ''close'' [I sock]]),
            0))"

section \<open>file_io.c\<close>

text \<open>
  The environment says whether each \<open>fopen\<close> returns a stream, and what \<open>fgets\<close>
  reads (\<open>None\<close> when it returns \<open>NULL\<close>).
\<close>

record file_env =
  fopen_write :: bool
  fopen_read :: bool
  fgets_line :: "string option"
  fopen_sensitive :: "int \<Rightarrow> bool"

definition sensitive :: "string list" where
  "sensitive = [''/etc/passwd'', ''/proc/version'', ''/root'']"

definition count_sensitive :: int where
  "count_sensitive = int (length sensitive)"

text \<open>One pass of the loop over the sensitive paths; \<open>i\<close> is within the array by the loop test.\<close>

definition sensitive_body :: "file_env \<Rightarrow> int \<Rightarrow> event list \<Rightarrow> event list" where
  "sensitive_body env i t =
     t @ [Call ''fopen'' [S (sensitive ! nat i), S ''r'']] @
         (if fopen_sensitive env i
          then [Print (warning_mark @ '' WARNING: Can access '' @ sensitive ! nat i @ endl),
                Call ''fclose'' []]
          else [Print (check_mark @ '' Cannot access '' @ sensitive ! nat i @ endl)])"

function sensitive_for :: "file_env \<Rightarrow> int \<Rightarrow> event list \<Rightarrow> event list" where
  "sensitive_for env i t =
     (if i < count_sensitive then sensitive_for env (i + 1) (sensitive_body env i t) else t)"
  by pat_completeness auto
termination
  by (relation "measure (\<lambda>(env, i, t). nat (count_sensitive - i))") auto

declare sensitive_for.simps [simp del]

definition main_file_io :: "file_env \<Rightarrow> event list \<times> int" where
  "main_file_io env =
     (let t0 = [Print (''=== C File I/O Test ==='' @ endl),
                Call ''fopen'' [S ''test.txt'', S ''w'']];
          t1 = (if fopen_write env
                then t0 @
                     [Call ''fprintf'' [S (''Hello from C in sandbox!'' @ endl)],
                      Call ''fclose'' [],
                      Print (check_mark @ '' Created and wrote to test.txt'' @ endl),
                      Call ''fopen'' [S ''test.txt'', S ''r'']] @
                     (if fopen_read env
                      then Call ''fgets'' [] #
                           (case fgets_line env of
                              Some buffer \<Rightarrow> [Print (check_mark @ '' Read back: '' @ buffer)]
                            | None \<Rightarrow> []) @
                           [Call ''fclose'' []]
                      else []) @
                     [Call ''unlink'' [S ''test.txt''],
                      Print (check_mark @ '' Cleaned up test.txt'' @ endl)]
                else t0 @ [Print (cross_mark @ '' Failed to create test.txt'' @ endl)])
      in (sensitive_for env 0 t1, 0))"

section \<open>Checked arithmetic\<close>

lemma checked_in_range:
  "INT_MIN \<le> x \<Longrightarrow> x \<le> INT_MAX \<Longrightarrow> checked x = Inr x"
  by (simp add: checked_def)

lemma checked_above: "INT_MAX < x \<Longrightarrow> checked x = Inl SignedOverflow"
  by (simp add: checked_def)

section \<open>Views of a run\<close>

lemma calls_of_append: "calls_of name (a @ b) = calls_of name a @ calls_of name b"
  by (induction name a rule: calls_of.induct) simp_all

lemma prints_append: "prints (a @ b) = prints a @ prints b"
  by (induction a rule: prints.induct) simp_all

lemma call_names_append: "call_names (a @ b) = call_names a @ call_names b"
  by (induction a rule: call_names.induct) simp_all

lemma calls_of_map_Call:
  "calls_of name (map (\<lambda>i. Call name' (f i)) xs) = (if name' = name then map f xs else [])"
  by (induction xs) auto

lemma prints_map_Call: "prints (map (\<lambda>i. Call name (f i)) xs) = []"
  by (induction xs) simp_all

lemma calls_of_concat_map:
  "calls_of name (concat (map f xs)) = concat (map (\<lambda>i. calls_of name (f i)) xs)"
  by (induction xs) (simp_all add: calls_of_append)

lemma prints_concat_map: "prints (concat (map f xs)) = concat (map (\<lambda>i. prints (f i)) xs)"
  by (induction xs) (simp_all add: prints_append)

lemma prints_map_Print: "prints (map Print xs) = xs"
  by (induction xs) simp_all

lemma calls_of_map_Print: "calls_of name (map Print xs) = []"
  by (induction xs) simp_all

section \<open>Leading passes of a loop\<close>

lemma leading_passes:
  fixes P :: "nat \<Rightarrow> bool" and N :: nat
  defines "k \<equiv> length (takeWhile P [0..<N])"
  shows "k \<le> N" and "\<forall>i<k. P i" and "k < N \<longrightarrow> \<not> P k"
proof -
  show le: "k \<le> N"
    using length_takeWhile_le [of P "[0..<N]"] by (simp add: k_def)
  show "\<forall>i<k. P i"
  proof (intro allI impI)
    fix i assume i: "i < k"
    then have "takeWhile P [0..<N] ! i \<in> set (takeWhile P [0..<N])"
      by (simp add: k_def)
    then have "P (takeWhile P [0..<N] ! i)" by (blast dest: set_takeWhileD)
    moreover have "takeWhile P [0..<N] ! i = i"
      using i le by (simp add: k_def takeWhile_nth)
    ultimately show "P i" by simp
  qed
  show "k < N \<longrightarrow> \<not> P k"
    using nth_length_takeWhile [of P "[0..<N]"] by (simp add: k_def)
qed

lemma leading_passes_eq:
  fixes P :: "nat \<Rightarrow> bool"
  assumes "k \<le> N" and "\<forall>i<k. P i" and "k < N \<longrightarrow> \<not> P k"
  shows "length (takeWhile P [0..<N]) = k"
proof -
  have "takeWhile P [0..<N] = take k [0..<N]"
    using assms by (intro takeWhile_eq_take_P_nth) auto
  then show ?thesis using assms(1) by simp
qed

section \<open>Properties of the longest-increasing-subsequence fixtures\<close>

text \<open>
  C1, as stated: on its hard-coded array the fixture in test_files prints the single line
  \<open>LIS length: 6\<close> and exits with status 0. The run does not produce that output.
\<close>

theorem C1_lis_main_not_six:
  "main_lis_src \<noteq> Inr (''LIS length: 6'' @ endl, 0)"
  by code_simp

text \<open>
  C1, amended: on its hard-coded array \<open>{10, 9, 2, 5, 3, 7, 101, 18}\<close> the fixture
  prints exactly one line, \<open>LIS length: 4\<close>, and exits with status 0.
\<close>

theorem C1_lis_main_prints_four:
  "main_lis_src = Inr (''LIS length: 4'' @ endl, 0)"
  by code_simp

section \<open>Properties of the star-pattern fixtures\<close>

lemma print_star_pattern_inner_ok:
  "1 \<le> i \<Longrightarrow> i < 2 ^ 30 \<Longrightarrow> 0 \<le> j \<Longrightarrow> j \<le> 2 * i - 1 \<Longrightarrow>
   print_star_pattern_inner i j out = Inr (out @ replicate (nat (2 * i - 1 - j)) (CHR ''*''))"
proof (induction i j out rule: print_star_pattern_inner.induct)
  case (1 i j out)
  have c1: "checked (2 * i) = Inr (2 * i)"
    using "1.prems" by (intro checked_in_range) (simp_all add: INT_MIN_def INT_MAX_def)
  have c2: "checked (2 * i - 1) = Inr (2 * i - 1)"
    using "1.prems" by (intro checked_in_range) (simp_all add: INT_MIN_def INT_MAX_def)
  show ?case
  proof (cases "j < 2 * i - 1")
    case True
    have c3: "checked (j + 1) = Inr (j + 1)"
      using "1.prems" True by (intro checked_in_range) (simp_all add: INT_MIN_def INT_MAX_def)
    have step: "print_star_pattern_inner i (j + 1) (out @ ''*'') =
                Inr ((out @ ''*'') @ replicate (nat (2 * i - 1 - (j + 1))) (CHR ''*''))"
      using "1.IH" [OF c1 c2 True c3] "1.prems" True by simp
    have "nat (2 * i - 1 - j) = Suc (nat (2 * i - 1 - (j + 1)))"
      using True by simp
    then have "replicate (nat (2 * i - 1 - j)) (CHR ''*'') =
               CHR ''*'' # replicate (nat (2 * i - 1 - (j + 1))) (CHR ''*'')"
      by simp
    with step show ?thesis
      by (subst print_star_pattern_inner.simps) (simp add: c1 c2 c3 True)
  next
    case False
    with "1.prems" have "j = 2 * i - 1" by simp
    then show ?thesis
      by (subst print_star_pattern_inner.simps) (simp add: c1 c2)
  qed
qed

lemma print_star_pattern_inner_overflow:
  "2 ^ 30 \<le> i \<Longrightarrow> print_star_pattern_inner i j out = Inl SignedOverflow"
  by (subst print_star_pattern_inner.simps)
     (simp add: checked_above INT_MAX_def)

lemma print_star_pattern_loop_ok:
  "1 \<le> i \<Longrightarrow> N < 2 ^ 30 \<Longrightarrow>
   print_star_pattern_loop N i out =
     Inr (out @ concat (map (\<lambda>k. (if 1 < k then '' '' else []) @ star_group k) [i..N]))"
proof (induction N i out rule: print_star_pattern_loop.induct)
  case (1 N i out)
  show ?case
  proof (cases "i \<le> N")
    case True
    let ?out1 = "if 1 < i then out @ '' '' else out"
    have inner: "print_star_pattern_inner i 0 ?out1 = Inr (?out1 @ star_group i)"
      using print_star_pattern_inner_ok [of i 0 ?out1] "1.prems" True
      by (simp add: star_group_def)
    have c: "checked (i + 1) = Inr (i + 1)"
      using "1.prems" True by (intro checked_in_range) (simp_all add: INT_MIN_def INT_MAX_def)
    have rest: "print_star_pattern_loop N (i + 1) (?out1 @ star_group i) =
          Inr ((?out1 @ star_group i) @
               concat (map (\<lambda>k. (if 1 < k then '' '' else []) @ star_group k) [i + 1..N]))"
      using "1.IH" [OF True inner c] "1.prems" by simp
    have "[i..N] = i # [i + 1..N]"
      using True by (simp add: upto_rec1)
    with rest show ?thesis
      by (subst print_star_pattern_loop.simps) (simp add: True inner c)
  next
    case False
    then show ?thesis
      by (subst print_star_pattern_loop.simps) simp
  qed
qed

lemma print_star_pattern_loop_overflow:
  "1 \<le> i \<Longrightarrow> i \<le> 2 ^ 30 \<Longrightarrow> 2 ^ 30 \<le> N \<Longrightarrow> N \<le> INT_MAX \<Longrightarrow>
   print_star_pattern_loop N i out = Inl SignedOverflow"
proof (induction N i out rule: print_star_pattern_loop.induct)
  case (1 N i out)
  have le: "i \<le> N" using "1.prems" by simp
  show ?case
  proof (cases "i = 2 ^ 30")
    case True
    then show ?thesis
      using le by (subst print_star_pattern_loop.simps)
                  (simp add: print_star_pattern_inner_overflow)
  next
    case False
    with "1.prems" have lt: "i < 2 ^ 30" by simp
    let ?out1 = "if 1 < i then out @ '' '' else out"
    have inner: "print_star_pattern_inner i 0 ?out1 = Inr (?out1 @ star_group i)"
      using print_star_pattern_inner_ok [of i 0 ?out1] "1.prems" lt
      by (simp add: star_group_def)
    have c: "checked (i + 1) = Inr (i + 1)"
      using "1.prems" lt by (intro checked_in_range) (simp_all add: INT_MIN_def INT_MAX_def)
    have "print_star_pattern_loop N (i + 1) (?out1 @ star_group i) = Inl SignedOverflow"
      using "1.IH" [OF le inner c] "1.prems" lt by simp
    then show ?thesis
      by (subst print_star_pattern_loop.simps) (simp add: le inner c)
  qed
qed

lemma printStarPattern_inner_ok:
  assumes "1 \<le> i" "i < 2 ^ 30" "0 \<le> j" "j \<le> 2 * i - 1"
  shows "printStarPattern_inner i j out =
         Inr (out @ replicate (nat (2 * i - 1 - j)) (CHR ''*''))"
  using assms
proof (induction "nat (2 * i - 1 - j)" arbitrary: j out)
  case 0
  then have "j = 2 * i - 1" by simp
  then show ?case
    using "0.prems"
    by (subst printStarPattern_inner.simps)
       (simp add: checked_in_range INT_MIN_def INT_MAX_def)
next
  case (Suc d)
  then have lt: "j < 2 * i - 1" by simp
  have d: "d = nat (2 * i - 1 - (j + 1))" using Suc.hyps(2) by simp
  have "printStarPattern_inner i (j + 1) (out @ ''*'') =
        Inr ((out @ ''*'') @ replicate d (CHR ''*''))"
    unfolding d using Suc.prems lt by (intro Suc.hyps(1) [OF d]) simp_all
  moreover have "replicate (nat (2 * i - 1 - j)) (CHR ''*'') = CHR ''*'' # replicate d (CHR ''*'')"
    using Suc.hyps(2) [symmetric] by simp
  ultimately show ?case
    using Suc.prems lt
    by (subst printStarPattern_inner.simps)
       (simp add: checked_in_range INT_MIN_def INT_MAX_def)
qed

lemma printStarPattern_inner_overflow:
  "2 ^ 30 \<le> i \<Longrightarrow> printStarPattern_inner i j out = Inl SignedOverflow"
  by (subst printStarPattern_inner.simps) (simp add: checked_above INT_MAX_def)

lemma printStarPattern_loop_unfold:
  assumes "1 \<le> i" "i \<le> N" "i < 2 ^ 30"
  shows "printStarPattern_loop N i out =
         printStarPattern_loop N (i + 1) (out @ star_group i @ '' '')"
proof -
  have "printStarPattern_inner i 0 out = Inr (out @ star_group i)"
    using printStarPattern_inner_ok [of i 0 out] assms by (simp add: star_group_def)
  moreover have "checked (i + 1) = Inr (i + 1)"
    using assms by (intro checked_in_range) (simp_all add: INT_MIN_def INT_MAX_def)
  ultimately show ?thesis
    using assms by (subst printStarPattern_loop.simps) simp
qed

lemma printStarPattern_loop_ok:
  assumes "1 \<le> i" "N < 2 ^ 30"
  shows "printStarPattern_loop N i out =
         Inr (out @ concat (map (\<lambda>k. star_group k @ '' '') [i..N]))"
  using assms
proof (induction "nat (N + 1 - i)" arbitrary: i out)
  case 0
  then have "\<not> i \<le> N" by simp
  then show ?case by (subst printStarPattern_loop.simps) simp
next
  case (Suc d)
  then have le: "i \<le> N" by simp
  have d: "d = nat (N + 1 - (i + 1))" using Suc.hyps(2) by simp
  have "printStarPattern_loop N i out =
        printStarPattern_loop N (i + 1) (out @ star_group i @ '' '')"
    using Suc.prems le by (intro printStarPattern_loop_unfold) simp_all
  also have "\<dots> = Inr ((out @ star_group i @ '' '') @
                       concat (map (\<lambda>k. star_group k @ '' '') [i + 1..N]))"
    using Suc.prems by (intro Suc.hyps(1) [OF d]) simp_all
  finally show ?case using le by (simp add: upto_rec1 [of i N])
qed

lemma printStarPattern_loop_overflow:
  assumes "1 \<le> i" "i \<le> 2 ^ 30" "2 ^ 30 \<le> N"
  shows "printStarPattern_loop N i out = Inl SignedOverflow"
  using assms
proof (induction "nat (2 ^ 30 - i)" arbitrary: i out)
  case 0
  then have "i = 2 ^ 30" by simp
  then show ?case
    using "0.prems"
    by (subst printStarPattern_loop.simps) (simp add: printStarPattern_inner_overflow)
next
  case (Suc d)
  then have lt: "i < 2 ^ 30" by simp
  have d: "d = nat (2 ^ 30 - (i + 1))" using Suc.hyps(2) by simp
  have "printStarPattern_loop N i out =
        printStarPattern_loop N (i + 1) (out @ star_group i @ '' '')"
    using Suc.prems lt by (intro printStarPattern_loop_unfold) simp_all
  also have "\<dots> = Inl SignedOverflow"
    using Suc.prems lt by (intro Suc.hyps(1) [OF d]) simp_all
  finally show ?case .
qed

lemma groups_acc_nonspace:
  "\<forall>c \<in> set g. \<not> is_space c \<Longrightarrow> groups_acc cur (g @ rest) = groups_acc (cur @ g) rest"
  by (induction g arbitrary: cur) simp_all

lemma stars_nonspace: "\<forall>c \<in> set (star_group k). \<not> is_space c"
  by (simp add: star_group_def is_space_def)

lemma stars_nonempty: "1 \<le> k \<Longrightarrow> star_group k \<noteq> []"
  by (simp add: star_group_def)

lemma groups_acc_stars:
  "groups_acc cur (star_group k @ rest) = groups_acc (cur @ star_group k) rest"
  by (rule groups_acc_nonspace [OF stars_nonspace])

lemma groups_acc_trailing:
  "\<forall>k \<in> set ks. 1 \<le> k \<Longrightarrow>
   groups_acc [] (concat (map (\<lambda>k. star_group k @ '' '') ks) @ rest) =
     map star_group ks @ groups_acc [] rest"
proof (induction ks)
  case Nil
  show ?case by simp
next
  case (Cons k ks)
  then have ne: "star_group k \<noteq> []" by (simp add: stars_nonempty)
  have "groups_acc [] (star_group k @ CHR '' '' # concat (map (\<lambda>k. star_group k @ '' '') ks) @ rest) =
        groups_acc (star_group k) (CHR '' '' # concat (map (\<lambda>k. star_group k @ '' '') ks) @ rest)"
    using groups_acc_stars [of "[]" k] by simp
  also have "\<dots> = star_group k # groups_acc [] (concat (map (\<lambda>k. star_group k @ '' '') ks) @ rest)"
    using ne by (simp add: is_space_def)
  finally show ?case using Cons by simp
qed

lemma groups_acc_leading:
  "\<forall>k \<in> set ks. 1 \<le> k \<Longrightarrow> cur \<noteq> [] \<Longrightarrow>
   groups_acc cur (concat (map (\<lambda>k. '' '' @ star_group k) ks) @ endl) = cur # map star_group ks"
proof (induction ks arbitrary: cur)
  case Nil
  then show ?case by (simp add: endl_def is_space_def)
next
  case (Cons k ks)
  then have ne: "star_group k \<noteq> []" by (simp add: stars_nonempty)
  have "groups_acc cur (CHR '' '' # star_group k @ concat (map (\<lambda>k. '' '' @ star_group k) ks) @ endl) =
        cur # groups_acc [] (star_group k @ concat (map (\<lambda>k. '' '' @ star_group k) ks) @ endl)"
    using Cons.prems by (simp add: is_space_def)
  also have "\<dots> = cur # groups_acc (star_group k) (concat (map (\<lambda>k. '' '' @ star_group k) ks) @ endl)"
    using groups_acc_stars [of "[]" k] by simp
  also have "\<dots> = cur # star_group k # map star_group ks"
    using Cons.IH [of "star_group k"] Cons.prems ne by simp
  finally show ?case by simp
qed

lemma separated_line:
  assumes "1 \<le> N"
  shows "concat (map (\<lambda>k. (if 1 < k then '' '' else []) @ star_group k) [1..N]) =
         star_group 1 @ concat (map (\<lambda>k. '' '' @ star_group k) [2..N])"
proof -
  have up: "[1..N] = 1 # [2..N]" using assms by (simp add: upto_rec1)
  have m: "map (\<lambda>k. (if 1 < k then '' '' else []) @ star_group k) [2..N] =
           map (\<lambda>k. '' '' @ star_group k) [2..N]"
    by (rule map_cong) auto
  show ?thesis unfolding up by (simp add: m)
qed

lemma groups_separated:
  assumes "1 \<le> N"
  shows "groups (concat (map (\<lambda>k. (if 1 < k then '' '' else []) @ star_group k) [1..N]) @ endl) =
         map star_group [1..N]"
proof -
  have up: "[1..N] = 1 # [2..N]" using assms by (simp add: upto_rec1)
  have "groups_acc [] (star_group 1 @ concat (map (\<lambda>k. '' '' @ star_group k) [2..N]) @ endl) =
        groups_acc (star_group 1) (concat (map (\<lambda>k. '' '' @ star_group k) [2..N]) @ endl)"
    using groups_acc_stars [of "[]" 1] by simp
  also have "\<dots> = star_group 1 # map star_group [2..N]"
    by (rule groups_acc_leading) (auto simp: stars_nonempty)
  finally have "groups_acc [] ((star_group 1 @ concat (map (\<lambda>k. '' '' @ star_group k) [2..N])) @ endl) =
        map star_group [1..N]"
    unfolding up by simp
  then show ?thesis
    unfolding groups_def separated_line [OF assms] .
qed

lemma groups_trailing:
  "groups (concat (map (\<lambda>k. star_group k @ '' '') [1..N]) @ endl) = map star_group [1..N]"
proof -
  have "groups_acc [] (concat (map (\<lambda>k. star_group k @ '' '') [1..N]) @ endl) =
        map star_group [1..N] @ groups_acc [] endl"
    by (rule groups_acc_trailing) simp
  then show ?thesis by (simp add: groups_def endl_def is_space_def)
qed

lemma sum_odd_upto:
  "1 \<le> i \<Longrightarrow> i \<le> N + 1 \<Longrightarrow>
   (\<Sum>k\<leftarrow>[i..N]. nat (2 * k - 1)) = nat (N * N - (i - 1) * (i - 1))"
proof (induction "nat (N + 1 - i)" arbitrary: i)
  case 0
  then have "i = N + 1" by simp
  then show ?case by simp
next
  case (Suc d)
  then have le: "i \<le> N" by simp
  then have up: "[i..N] = i # [i + 1..N]" by (simp add: upto_rec1)
  have d: "d = nat (N + 1 - (i + 1))" using Suc.hyps by simp
  have ih: "(\<Sum>k\<leftarrow>[i + 1..N]. nat (2 * k - 1)) = nat (N * N - i * i)"
    using Suc.hyps(1) [OF d] Suc.prems le by simp
  have sq: "i * i \<le> N * N" using le Suc.prems by (simp add: mult_mono)
  have "nat (2 * i - 1) + nat (N * N - i * i) = nat (N * N - (i - 1) * (i - 1))"
    using sq Suc.prems by (simp add: algebra_simps nat_add_distrib [symmetric])
  then show ?case using up ih by simp
qed

lemma count_list_replicate_same: "count_list (replicate n c) c = n"
  by (induction n) simp_all

lemma count_stars_separated:
  "count_list (concat (map (\<lambda>k. (if 1 < k then '' '' else []) @ star_group k) ks)) (CHR ''*'') =
   (\<Sum>k\<leftarrow>ks. nat (2 * k - 1))"
  by (induction ks) (simp_all add: star_group_def count_list_replicate_same)

lemma count_stars_trailing:
  "count_list (concat (map (\<lambda>k. star_group k @ '' '') ks)) (CHR ''*'') =
   (\<Sum>k\<leftarrow>ks. nat (2 * k - 1))"
  by (induction ks) (simp_all add: star_group_def count_list_replicate_same)

text \<open>
  C9, as stated, for every integer \<open>N \<ge> 1\<close>: at \<open>N = 2 ^ 30\<close>, a value that
  \<open>cin >> N\<close> can store in an \<open>int\<close>, the bound \<open>2 * i - 1\<close> of the last group
  overflows in both fixtures, so neither run is one that prints \<open>N\<close> groups and returns.
\<close>

theorem C9_star_overflow_at_2_30:
  "main_star_src 1073741824 = Inl SignedOverflow \<and>
   main_star_tests 1073741824 = Inl SignedOverflow"
proof -
  have "print_star_pattern_loop (2 ^ 30) 1 [] = Inl SignedOverflow"
    by (rule print_star_pattern_loop_overflow) (simp_all add: INT_MAX_def)
  moreover have "printStarPattern_loop (2 ^ 30) 1 [] = Inl SignedOverflow"
    by (rule printStarPattern_loop_overflow) simp_all
  ultimately show ?thesis
    by (simp add: main_star_src_def main_star_tests_def print_star_pattern_def
        printStarPattern_def)
qed

text \<open>
  C9, amended: for every \<open>N\<close> with \<open>1 \<le> N < 2 ^ 30\<close> read from stdin, both
  star-pattern fixtures return 0 after printing one line that ends in a newline and holds
  \<open>N\<close> star-groups, the i-th of exactly \<open>2 * i - 1\<close> stars (\<open>N * N\<close> stars in total);
  the two outputs are equal after normalising the whitespace between and around the groups.
\<close>

theorem C9_star_patterns:
  assumes "1 \<le> N" and "N < 2 ^ 30"
  shows "\<exists>a b. main_star_src N = Inr (a @ endl, 0) \<and>
               main_star_tests N = Inr (b @ endl, 0) \<and>
               CHR 0x0A \<notin> set a \<and> CHR 0x0A \<notin> set b \<and>
               groups (a @ endl) = map star_group [1..N] \<and>
               groups (b @ endl) = groups (a @ endl) \<and>
               length (groups (a @ endl)) = nat N \<and>
               count_list a (CHR ''*'') = nat (N * N) \<and>
               count_list b (CHR ''*'') = nat (N * N)"
proof -
  let ?a = "concat (map (\<lambda>k. (if 1 < k then '' '' else []) @ star_group k) [1..N])"
  let ?b = "concat (map (\<lambda>k. star_group k @ '' '') [1..N])"
  have a: "main_star_src N = Inr (?a @ endl, 0)"
    using print_star_pattern_loop_ok [of 1 N "[]"] assms
    by (simp add: main_star_src_def print_star_pattern_def)
  have b: "main_star_tests N = Inr (?b @ endl, 0)"
    using printStarPattern_loop_ok [of 1 N "[]"] assms
    by (simp add: main_star_tests_def printStarPattern_def)
  have na: "CHR 0x0A \<notin> set ?a" by (auto simp: star_group_def split: if_splits)
  have nb: "CHR 0x0A \<notin> set ?b" by (auto simp: star_group_def)
  have ga: "groups (?a @ endl) = map star_group [1..N]"
    by (rule groups_separated [OF assms(1)])
  have gb: "groups (?b @ endl) = map star_group [1..N]"
    by (rule groups_trailing)
  have len: "length (map star_group [1..N]) = nat N"
    using assms by simp
  have total: "(\<Sum>k\<leftarrow>[1..N]. nat (2 * k - 1)) = nat (N * N)"
    using sum_odd_upto [of 1 N] assms by simp
  have ca: "count_list ?a (CHR ''*'') = nat (N * N)"
    by (simp only: count_stars_separated total)
  have cb: "count_list ?b (CHR ''*'') = nat (N * N)"
    by (simp only: count_stars_trailing total)
  show ?thesis
    using a b na nb ga gb len ca cb by (intro exI [of _ ?a] exI [of _ ?b]) simp
qed

theorem C9_star_patterns_three:
  "\<exists>a b. main_star_src 3 = Inr (a @ endl, 0) \<and>
         main_star_tests 3 = Inr (b @ endl, 0) \<and>
         CHR 0x0A \<notin> set a \<and> CHR 0x0A \<notin> set b \<and>
         groups (a @ endl) = [''*'', ''***'', ''*****''] \<and>
         groups (b @ endl) = groups (a @ endl) \<and>
         length (groups (a @ endl)) = 3 \<and>
         count_list a (CHR ''*'') = 9 \<and>
         count_list b (CHR ''*'') = 9"
proof -
  have up: "[1..3::int] = [1, 2, 3]" by (simp add: upto_rec1)
  show ?thesis
    using C9_star_patterns [of 3] by (simp add: up star_group_def numeral_eq_Suc)
qed

section \<open>Properties of the two longest-increasing-subsequence functions\<close>

lemma finite_ending: "finite (ending arr k)"
proof -
  have "ending arr k \<subseteq> set (subseqs (take k arr))"
    by (auto simp: ending_def)
  then show ?thesis by (rule finite_subset) simp
qed

lemma Nil_in_ending: "[] \<in> ending arr k"
  by (simp add: ending_def)

lemma length_le_best_ending:
  "ys \<in> ending arr k \<Longrightarrow> 1 + int (length ys) \<le> best_ending arr k"
  by (simp add: best_ending_def finite_ending)

lemma best_ending_attained:
  "\<exists>ys \<in> ending arr k. best_ending arr k = 1 + int (length ys)"
proof -
  have "Max (length ` ending arr k) \<in> length ` ending arr k"
    using finite_ending [of arr k] Nil_in_ending [of arr k] by (intro Max_in) auto
  then show ?thesis by (auto simp: best_ending_def)
qed

lemma best_ending_ge_1: "1 \<le> best_ending arr k"
  by (simp add: best_ending_def)

lemma best_ending_le:
  assumes "k \<le> length arr"
  shows "best_ending arr k \<le> int k + 1"
proof -
  obtain ys where ys: "ys \<in> ending arr k" "best_ending arr k = 1 + int (length ys)"
    using best_ending_attained by blast
  then have "subseq ys (take k arr)" by (simp add: ending_def)
  then have "length ys \<le> length (take k arr)" by (rule list_emb_length)
  then show ?thesis using ys assms by simp
qed

text \<open>A subsequence with a last element sits before some index holding that element.\<close>

lemma subseq_snoc_index:
  assumes "subseq (ys @ [y]) xs"
  shows "\<exists>j < length xs. xs ! j = y \<and> subseq ys (take j xs)"
proof -
  from assms obtain us vs where xs: "xs = us @ vs" and u: "subseq ys us" and v: "subseq [y] vs"
    by (auto dest: list_emb_appendD)
  from v have "y \<in> set vs" by (simp add: subseq_singleton_left)
  then obtain m where m: "m < length vs" "vs ! m = y"
    by (auto simp: in_set_conv_nth)
  have "subseq ys (us @ take m vs)" using u by (rule list_emb_prefix)
  then show ?thesis
    using m xs by (intro exI [of _ "length us + m"]) (simp add: nth_append)
qed

lemma subseq_extend_index:
  assumes "j < length xs" and "subseq ys (take j xs)"
  shows "subseq (ys @ [xs ! j]) xs"
proof -
  have "subseq (ys @ [xs ! j]) (take j xs @ (xs ! j # drop (Suc j) xs))"
    using assms(2) by (intro list_emb_append_mono) simp_all
  then show ?thesis using assms(1) by (simp add: id_take_nth_drop [symmetric])
qed

lemma ending_extend:
  assumes "j < k" "k < length arr" "arr ! j < arr ! k" "ys \<in> ending arr j"
  shows "ys @ [arr ! j] \<in> ending arr k"
proof -
  have "subseq (ys @ [take k arr ! j]) (take k arr)"
    using assms by (intro subseq_extend_index) (simp_all add: ending_def min_def)
  moreover have "sorted_wrt (<) ((ys @ [arr ! j]) @ [arr ! k])"
    using assms(3,4) by (auto simp: ending_def sorted_wrt_append)
  ultimately show ?thesis using assms(1) by (simp add: ending_def)
qed

lemma ending_snoc_cases:
  assumes "ys @ [y] \<in> ending arr k" "k < length arr"
  shows "\<exists>j < k. arr ! j = y \<and> arr ! j < arr ! k \<and> ys \<in> ending arr j"
proof -
  from assms have sub: "subseq (ys @ [y]) (take k arr)"
    and srt: "sorted_wrt (<) ((ys @ [y]) @ [arr ! k])"
    by (simp_all add: ending_def)
  from subseq_snoc_index [OF sub] obtain j where
    j: "j < length (take k arr)" "take k arr ! j = y" "subseq ys (take j (take k arr))"
    by blast
  then have jk: "j < k" by simp
  have "sorted_wrt (<) (ys @ [y])" "y < arr ! k"
    using srt by (auto simp: sorted_wrt_append)
  then have "ys \<in> ending arr j" "arr ! j < arr ! k" "arr ! j = y"
    using j jk by (simp_all add: ending_def min_def)
  then show ?thesis using jk by blast
qed

text \<open>The recurrence that the two nested loops compute.\<close>

lemma best_ending_rec:
  assumes "k < length arr"
  shows "best_ending arr k =
         Max (insert 1 {best_ending arr j + 1 | j. j < k \<and> arr ! j < arr ! k})"
    (is "_ = Max ?S")
proof (rule antisym)
  have fin: "finite ?S" by simp
  obtain zs where zs: "zs \<in> ending arr k" "best_ending arr k = 1 + int (length zs)"
    using best_ending_attained by blast
  show "best_ending arr k \<le> Max ?S"
  proof (cases zs rule: rev_cases)
    case Nil
    then show ?thesis using zs fin by (simp add: Max_ge_iff)
  next
    case (snoc ys y)
    with zs assms obtain j where j: "j < k" "arr ! j < arr ! k" "ys \<in> ending arr j"
      using ending_snoc_cases [of ys y arr k] by blast
    have "best_ending arr k = 1 + int (length ys) + 1" using zs snoc by simp
    also have "\<dots> \<le> best_ending arr j + 1"
      using length_le_best_ending [OF j(3)] by simp
    also have "\<dots> \<le> Max ?S"
      using j by (intro Max_ge fin) auto
    finally show ?thesis .
  qed
  show "Max ?S \<le> best_ending arr k"
  proof (rule Max.boundedI [OF fin])
    show "?S \<noteq> {}" by simp
    fix a assume "a \<in> ?S"
    then consider "a = 1" | j where "j < k" "arr ! j < arr ! k" "a = best_ending arr j + 1"
      by auto
    then show "a \<le> best_ending arr k"
    proof cases
      case 1
      then show ?thesis by (simp add: best_ending_ge_1)
    next
      case 2
      obtain ys where ys: "ys \<in> ending arr j" "best_ending arr j = 1 + int (length ys)"
        using best_ending_attained by blast
      have "ys @ [arr ! j] \<in> ending arr k"
        using 2 assms ys by (intro ending_extend)
      from length_le_best_ending [OF this] show ?thesis
        using 2 ys by simp
    qed
  qed
qed

text \<open>The best length over all last positions is the length the words describe.\<close>

lemma longest_as_best_ending:
  assumes "arr \<noteq> []"
  shows "int (longest_strictly_increasing arr) = Max (best_ending arr ` {..<length arr})"
    (is "_ = Max ?B")
proof (rule antisym)
  let ?L = "length ` {ys \<in> set (subseqs arr). sorted_wrt (<) ys}"
  have "finite {ys \<in> set (subseqs arr). sorted_wrt (<) ys}"
    by (rule finite_subset [of _ "set (subseqs arr)"]) auto
  then have finL: "finite ?L" by (rule finite_imageI)
  have finB: "finite ?B" by simp
  have "0 \<in> {..<length arr}" using assms by simp
  then have neB: "?B \<noteq> {}" by blast
  have "Max ?L \<in> ?L" by (rule Max_in [OF finL]) (auto intro: exI [of _ "[]"])
  then obtain zs where zs: "subseq zs arr" "sorted_wrt (<) zs"
      "longest_strictly_increasing arr = length zs"
    by (auto simp: longest_strictly_increasing_def)
  show "int (longest_strictly_increasing arr) \<le> Max ?B"
  proof (cases zs rule: rev_cases)
    case Nil
    have "0 \<le> best_ending arr 0" using best_ending_ge_1 [of arr 0] by simp
    also have "\<dots> \<le> Max ?B" using assms by (intro Max_ge finB) simp
    finally show ?thesis using zs Nil by simp
  next
    case (snoc ys y)
    from subseq_snoc_index [of ys y arr] zs snoc obtain j where
      j: "j < length arr" "arr ! j = y" "subseq ys (take j arr)" by blast
    then have "ys \<in> ending arr j" using zs snoc by (simp add: ending_def)
    from length_le_best_ending [OF this]
    have "int (length zs) \<le> best_ending arr j" using snoc by simp
    also have "\<dots> \<le> Max ?B" using j by (intro Max_ge finB) simp
    finally show ?thesis using zs by simp
  qed
  show "Max ?B \<le> int (longest_strictly_increasing arr)"
  proof (rule Max.boundedI [OF finB neB])
    fix a assume "a \<in> ?B"
    then obtain k where k: "k < length arr" "a = best_ending arr k" by auto
    obtain ys where ys: "ys \<in> ending arr k" "best_ending arr k = 1 + int (length ys)"
      using best_ending_attained by blast
    have "subseq (ys @ [arr ! k]) arr"
      using k ys by (intro subseq_extend_index) (simp_all add: ending_def)
    moreover have "sorted_wrt (<) (ys @ [arr ! k])" using ys by (simp add: ending_def)
    ultimately have "length (ys @ [arr ! k]) \<in> ?L" by (intro imageI) simp
    then have "length (ys @ [arr ! k]) \<le> Max ?L" by (intro Max_ge finL)
    then show "a \<le> int (longest_strictly_increasing arr)"
      using k ys by (simp add: longest_strictly_increasing_def)
  qed
qed

lemma foldl_max_Max:
  "foldl max (a::int) xs = Max (insert a (set xs))"
proof (induction xs arbitrary: a)
  case Nil
  show ?case by simp
next
  case (Cons x xs)
  have "Max (insert (max a x) (set xs)) = Max (insert a (insert x (set xs)))"
  proof (cases "set xs = {}")
    case True
    then show ?thesis by (simp add: max.commute)
  next
    case False
    then show ?thesis by (simp add: max.assoc)
  qed
  with Cons show ?case by simp
qed

lemma max_element_Max:
  "dp \<noteq> [] \<Longrightarrow> max_element dp = Inr (Max (set dp))"
proof (cases dp)
  case Nil
  assume "dp \<noteq> []"
  with Nil show ?thesis by simp
next
  case (Cons x xs)
  have "(\<lambda>largest y. if largest < y then y else largest) = (max :: int \<Rightarrow> int \<Rightarrow> int)"
    by (intro ext) (simp add: max_def)
  then show ?thesis using Cons by (simp add: foldl_max_Max)
qed

lemma lis_inner_eq_longest_inner:
  "lis_inner arr i j dp = longest_inner arr i j dp"
proof (induction arr i j dp rule: lis_inner.induct)
  case (1 arr i j dp)
  have body: "(if arr ! i > arr ! j \<and> dp ! i < dp ! j + 1 then dp[i := dp ! j + 1] else dp) =
              (if arr ! j < arr ! i then dp[i := max (dp ! i) (dp ! j + 1)] else dp)"
  proof (cases "dp ! i < dp ! j + 1")
    case True
    then show ?thesis by (simp add: max_absorb2)
  next
    case False
    then show ?thesis by (simp add: max_absorb1)
  qed
  show ?case
  proof (cases "j < i")
    case True
    then show ?thesis
      using "1.IH" [OF True]
      by (subst lis_inner.simps, subst longest_inner.simps) (simp only: body if_True)
  next
    case False
    then show ?thesis
      by (subst lis_inner.simps, subst longest_inner.simps) simp
  qed
qed

lemma lis_outer_eq_longest_outer:
  "lis_outer arr n i dp = longest_outer arr n i dp"
proof (induction arr n i dp rule: lis_outer.induct)
  case (1 arr n i dp)
  show ?case
  proof (cases "i < n")
    case True
    then show ?thesis
      using "1.IH" [OF True]
      by (subst lis_outer.simps, subst longest_outer.simps)
         (simp add: lis_inner_eq_longest_inner)
  next
    case False
    then show ?thesis
      by (subst lis_outer.simps, subst longest_outer.simps) simp
  qed
qed

lemma longest_inner_fold:
  "i < length dp \<Longrightarrow> j \<le> i \<Longrightarrow>
   longest_inner arr i j dp =
     dp[i := foldl max (dp ! i)
               (map (\<lambda>j'. dp ! j' + 1) (filter (\<lambda>j'. arr ! j' < arr ! i) [j..<i]))]"
proof (induction arr i j dp rule: longest_inner.induct)
  case (1 arr i j dp)
  show ?case
  proof (cases "j < i")
    case False
    with "1.prems" show ?thesis
      by (subst longest_inner.simps) simp
  next
    case True
    let ?dp = "if arr ! j < arr ! i then dp[i := max (dp ! i) (dp ! j + 1)] else dp"
    have len: "i < length ?dp" using "1.prems" by simp
    have same: "map (\<lambda>j'. ?dp ! j' + 1) (filter (\<lambda>j'. arr ! j' < arr ! i) [j + 1..<i]) =
                map (\<lambda>j'. dp ! j' + 1) (filter (\<lambda>j'. arr ! j' < arr ! i) [j + 1..<i])"
      by (rule map_cong) auto
    have "longest_inner arr i j dp = longest_inner arr i (j + 1) ?dp"
      using True by (subst longest_inner.simps) simp
    also have "\<dots> = ?dp[i := foldl max (?dp ! i)
               (map (\<lambda>j'. ?dp ! j' + 1) (filter (\<lambda>j'. arr ! j' < arr ! i) [j + 1..<i]))]"
      using True len by (intro "1.IH") simp_all
    also have "\<dots> = dp[i := foldl max (dp ! i)
               (map (\<lambda>j'. dp ! j' + 1) (filter (\<lambda>j'. arr ! j' < arr ! i) [j..<i]))]"
      unfolding same using True "1.prems" by (simp add: upt_conv_Cons)
    finally show ?thesis .
  qed
qed

lemma longest_inner_best:
  assumes "length dp = length arr" "i < length arr"
    and "\<forall>k<i. dp ! k = best_ending arr k" and "dp ! i = 1"
  shows "longest_inner arr i 0 dp = dp[i := best_ending arr i]"
proof -
  have "map (\<lambda>j'. dp ! j' + 1) (filter (\<lambda>j'. arr ! j' < arr ! i) [0..<i]) =
        map (\<lambda>j'. best_ending arr j' + 1) (filter (\<lambda>j'. arr ! j' < arr ! i) [0..<i])"
    using assms(3) by (intro map_cong) auto
  moreover have "set (map (\<lambda>j'. best_ending arr j' + 1)
                       (filter (\<lambda>j'. arr ! j' < arr ! i) [0..<i])) =
                 {best_ending arr j + 1 | j. j < i \<and> arr ! j < arr ! i}"
    by auto
  ultimately have "foldl max (dp ! i)
        (map (\<lambda>j'. dp ! j' + 1) (filter (\<lambda>j'. arr ! j' < arr ! i) [0..<i])) =
        best_ending arr i"
    using assms(4) by (simp only: foldl_max_Max best_ending_rec [OF assms(2)])
  then show ?thesis
    using longest_inner_fold [of i dp 0 arr] assms(1,2) by simp
qed

lemma longest_outer_table:
  assumes "length dp = length arr" "1 \<le> i" "i \<le> length arr"
    and "\<forall>k<i. dp ! k = best_ending arr k"
    and "\<forall>k. i \<le> k \<and> k < length arr \<longrightarrow> dp ! k = 1"
  shows "longest_outer arr (length arr) i dp = map (best_ending arr) [0..<length arr]"
  using assms
proof (induction "length arr - i" arbitrary: i dp)
  case 0
  then have "i = length arr" by simp
  then have "dp = map (best_ending arr) [0..<length arr]"
    using "0.prems" by (intro nth_equalityI) simp_all
  then show ?case
    using \<open>i = length arr\<close> by (subst longest_outer.simps) simp
next
  case (Suc d)
  then have lt: "i < length arr" by simp
  let ?dp = "dp[i := best_ending arr i]"
  have inner: "longest_inner arr i 0 dp = ?dp"
    using Suc.prems lt by (intro longest_inner_best) simp_all
  have "longest_outer arr (length arr) i dp = longest_outer arr (length arr) (i + 1) ?dp"
    using lt by (subst longest_outer.simps) (simp add: inner)
  also have "\<dots> = map (best_ending arr) [0..<length arr]"
  proof (rule Suc.hyps(1))
    show "d = length arr - (i + 1)" using Suc.hyps(2) by simp
    show "length ?dp = length arr" using Suc.prems by simp
    show "1 \<le> i + 1" by simp
    show "i + 1 \<le> length arr" using lt by simp
    show "\<forall>k<i + 1. ?dp ! k = best_ending arr k"
      using Suc.prems lt by (auto simp: nth_list_update less_Suc_eq)
    show "\<forall>k. i + 1 \<le> k \<and> k < length arr \<longrightarrow> ?dp ! k = 1"
      using Suc.prems by (auto simp: nth_list_update)
  qed
  finally show ?case .
qed

lemma best_ending_0: "arr \<noteq> [] \<Longrightarrow> best_ending arr 0 = 1"
  using best_ending_rec [of 0 arr] by simp

lemma longest_outer_result:
  assumes "arr \<noteq> []"
  shows "max_element (longest_outer arr (length arr) 1 (replicate (length arr) 1)) =
         Inr (int (longest_strictly_increasing arr))"
proof -
  have "longest_outer arr (length arr) 1 (replicate (length arr) 1) =
        map (best_ending arr) [0..<length arr]"
    using assms by (intro longest_outer_table) (simp_all add: best_ending_0 Suc_le_eq)
  moreover have "map (best_ending arr) [0..<length arr] \<noteq> []" using assms by simp
  moreover have "set (map (best_ending arr) [0..<length arr]) = best_ending arr ` {..<length arr}"
    by (simp add: lessThan_atLeast0)
  ultimately have "max_element (longest_outer arr (length arr) 1 (replicate (length arr) 1)) =
                   Inr (Max (best_ending arr ` {..<length arr}))"
    using max_element_Max [of "map (best_ending arr) [0..<length arr]"] by simp
  then show ?thesis
    by (simp only: longest_as_best_ending [OF assms])
qed

lemma size_to_int_small: "k < 2 ^ 31 \<Longrightarrow> size_to_int k = int k"
  by (simp add: size_to_int_def)

text \<open>
  C10, as stated, for every non-empty vector: a vector of \<open>2 ^ 31\<close> zeros has a size that
  \<open>int n\<close> cannot hold. \<open>n\<close> becomes negative, the construction of \<open>dp\<close> throws, and
  neither function returns the length 1 of its longest strictly increasing subsequence.
\<close>

theorem C10_lis_size_beyond_int:
  "lis (replicate 2147483648 0) = Inl LengthError \<and>
   longest_increasing_subsequence (replicate 2147483648 0) = Inl LengthError"
  by (simp add: lis_def longest_increasing_subsequence_def size_to_int_def)

text \<open>
  C10, amended: for every non-empty vector of fewer than \<open>2 ^ 31\<close> integers the two
  functions return the same value, the length of the longest strictly increasing
  subsequence of the vector; \<open>longest_increasing_subsequence\<close> returns 0 on the empty
  vector, where \<open>lis\<close> dereferences \<open>end()\<close> of the empty table.
\<close>

theorem C10_lis_agree:
  "(arr \<noteq> [] \<and> length arr < 2 ^ 31 \<longrightarrow>
      longest_increasing_subsequence arr = Inr (int (longest_strictly_increasing arr)) \<and>
      lis arr = Inr (int (longest_strictly_increasing arr))) \<and>
   longest_increasing_subsequence [] = Inr 0 \<and>
   lis [] = Inl UndefinedBehaviour"
proof (intro conjI impI)
  assume a: "arr \<noteq> [] \<and> length arr < 2 ^ 31"
  then have n: "size_to_int (length arr) = int (length arr)"
    by (simp add: size_to_int_small)
  show "longest_increasing_subsequence arr = Inr (int (longest_strictly_increasing arr))"
    using a longest_outer_result [of arr]
    by (simp add: longest_increasing_subsequence_def n)
  show "lis arr = Inr (int (longest_strictly_increasing arr))"
    using a longest_outer_result [of arr]
    by (simp add: lis_def n lis_outer_eq_longest_outer)
next
  show "longest_increasing_subsequence [] = Inr 0"
    by (simp add: longest_increasing_subsequence_def)
  show "lis [] = Inl UndefinedBehaviour"
    by (simp add: lis_def size_to_int_def lis_outer.simps)
qed

theorem C10_lis_agree_on_3_1_2:
  "longest_increasing_subsequence [3, 1, 2] = Inr 2 \<and> lis [3, 1, 2] = Inr 2 \<and>
   longest_increasing_subsequence [] = Inr 0 \<and> lis [] = Inl UndefinedBehaviour"
proof -
  have e: "longest_strictly_increasing [3, 1, 2] = 2"
    by code_simp
  show ?thesis
    using C10_lis_agree [of "[3, 1, 2]"] by (simp add: e)
qed

section \<open>Properties of the memory-limit-exceeded fixtures\<close>

lemma mle_src_loop_bad_alloc:
  assumes "alloc k = Some BadAlloc" and "\<forall>l<k. alloc l = None" and "k < 62"
  shows "j = 2 * m \<Longrightarrow> j \<le> k \<Longrightarrow> mle_src_loop alloc (2 ^ m) j = Inr (Some BadAlloc)"
proof (induction "k - j" arbitrary: j m rule: less_induct)
  case less
  consider "k = j" | "k = j + 1" | "j + 2 \<le> k" using less.prems by linarith
  then show ?case
  proof cases
    case 1
    then show ?thesis
      using assms(1) by (subst mle_src_loop.simps) simp
  next
    case 2
    then have "alloc j = None" using assms(2) by simp
    then show ?thesis
      using assms(1) 2 by (subst mle_src_loop.simps) simp
  next
    case 3
    then have none: "alloc j = None" "alloc (j + 1) = None" using assms(2) by simp_all
    have "m < 30" using 3 less.prems assms(3) by simp
    then have "(2::int) ^ (m + 1) \<le> 2 ^ 30" by (intro power_increasing) simp_all
    then have "(2::int) ^ (m + 1) \<le> INT_MAX" by (simp add: INT_MAX_def)
    moreover have "(0::int) \<le> 2 ^ (m + 1)" by simp
    then have "INT_MIN \<le> 2 ^ (m + 1)"
      by (rule order_trans [rotated]) (simp add: INT_MIN_def)
    ultimately have "checked (2 ^ (m + 1)) = Inr (2 ^ (m + 1))"
      by (intro checked_in_range)
    then have c: "checked (2 ^ m * 2) = Inr (2 ^ (m + 1))" by (simp add: mult.commute)
    have pos: "\<not> (2::int) ^ (m + 1) \<le> 0" by simp
    have "mle_src_loop alloc (2 ^ m) j = mle_src_loop alloc (2 ^ (m + 1)) (j + 2)"
      by (subst mle_src_loop.simps)
         (simp only: none c pos option.case sum.case if_False)
    also have "\<dots> = Inr (Some BadAlloc)"
      using 3 less.prems by (intro less.hyps) simp_all
    finally show ?thesis .
  qed
qed

lemma mle_tests_loop_bad_alloc:
  assumes "alloc k = Some BadAlloc" and "\<forall>l<k. alloc l = None"
  shows "j \<le> k \<Longrightarrow>
         mle_tests_loop alloc sz j =
           Some (''Memory allocation failed at size = '' @
                 show_nat (unat (sz * 2 ^ (k - j))) @ endl, Returned 0)"
proof (induction "k - j" arbitrary: j sz)
  case 0
  then have "j = k" by simp
  then show ?case
    using assms(1) by (subst mle_tests_loop.simps) simp
next
  case (Suc d)
  then have lt: "j < k" by simp
  then have none: "alloc j = None" using assms(2) by simp
  have d: "d = k - (j + 1)" using Suc.hyps(2) by simp
  have "k - j = Suc (k - (j + 1))" using lt by simp
  then have p: "sz * 2 * 2 ^ (k - (j + 1)) = sz * 2 ^ (k - j)" by simp
  have "mle_tests_loop alloc (sz * 2) (j + 1) =
        Some (''Memory allocation failed at size = '' @
              show_nat (unat (sz * 2 * 2 ^ (k - (j + 1)))) @ endl, Returned 0)"
    using lt by (intro Suc.hyps(1) [OF d]) simp
  then show ?case
    unfolding p by (subst mle_tests_loop.simps) (simp add: none)
qed

text \<open>
  C6: in each memory-limit-exceeded fixture, if a vector allocation throws \<open>bad_alloc\<close>
  (the k-th allocating operation is the first that throws; in the test_files fixture it is
  one of the 62 operations the loop performs while \<open>size\<close> stays within \<open>int\<close>), the
  program catches it, prints a line containing \<open>Memory allocation failed\<close> and returns
  exit status 0.
\<close>

theorem C6_bad_alloc_is_caught:
  assumes "alloc k = Some BadAlloc" and "\<forall>j<k. alloc j = None"
  shows "(k < 62 \<longrightarrow> main_mle_src alloc = Inr (''Memory allocation failed'' @ endl, 0)) \<and>
         main_mle_tests alloc =
           Some (''Memory allocation failed at size = '' @ show_nat (unat (2 ^ k :: 64 word)) @ endl,
                 Returned 0)"
proof
  show "k < 62 \<longrightarrow> main_mle_src alloc = Inr (''Memory allocation failed'' @ endl, 0)"
  proof
    assume "k < 62"
    from mle_src_loop_bad_alloc [OF assms this, of 0 0]
    show "main_mle_src alloc = Inr (''Memory allocation failed'' @ endl, 0)"
      by (simp add: main_mle_src_def)
  qed
  from mle_tests_loop_bad_alloc [OF assms, of 0 1]
  show "main_mle_tests alloc =
           Some (''Memory allocation failed at size = '' @ show_nat (unat (2 ^ k :: 64 word)) @ endl,
                 Returned 0)"
    by (simp add: main_mle_tests_def)
qed

theorem C6_bad_alloc_at_third_allocation:
  "main_mle_src (\<lambda>j. if j = 2 then Some BadAlloc else None) =
     Inr (''Memory allocation failed'' @ endl, 0) \<and>
   main_mle_tests (\<lambda>j. if j = 2 then Some BadAlloc else None) =
     Some (''Memory allocation failed at size = 4'' @ endl, Returned 0)"
proof -
  let ?alloc = "\<lambda>j::nat. if j = 2 then Some BadAlloc else None"
  have first: "?alloc 2 = Some BadAlloc" and before: "\<forall>j<2. ?alloc j = None"
    by simp_all
  from C6_bad_alloc_is_caught [OF first before] show ?thesis
    by (simp add: show_nat.simps digit_char_def)
qed

section \<open>Properties of timeout.c\<close>

lemma infinite_loop_while_no_result: "infinite_loop_while time s \<noteq> Some t"
proof
  assume returns: "infinite_loop_while time s = Some t"
  have step: "False"
    if "\<And>time' s' t'. f time' s' = Some t' \<Longrightarrow> False"
      and "(if (1::int) \<noteq> 0 then f time' (infinite_loop_body time' s') else Some s') = Some t'"
    for f :: "(nat \<Rightarrow> 64 word) \<Rightarrow> loop_state \<Rightarrow> loop_state option" and time' s' t'
    using that by simp
  show False
    by (rule infinite_loop_while.raw_induct [where P = "\<lambda>_ _ _. False", OF step returns])
qed

lemma infinite_loop_while_None: "infinite_loop_while time s = None"
  using infinite_loop_while_no_result [of time s] by (cases "infinite_loop_while time s") auto

lemma infinite_loop_while_iterate:
  "infinite_loop_while time s = infinite_loop_while time ((infinite_loop_body time ^^ n) s)"
proof (induction n)
  case 0
  show ?case by simp
next
  case (Suc n)
  have "infinite_loop_while time ((infinite_loop_body time ^^ n) s) =
        infinite_loop_while time (infinite_loop_body time ((infinite_loop_body time ^^ n) s))"
    by (subst infinite_loop_while.simps) simp
  with Suc show ?case by simp
qed

lemma counter_infinite_loop_body: "counter (infinite_loop_body time s) = counter s + 1"
  by (simp add: infinite_loop_body_def Let_def)

lemma counter_iterate:
  "counter ((infinite_loop_body time ^^ n) s) = counter s + of_nat n"
  by (induction n) (simp_all add: counter_infinite_loop_body)

lemma sleeps_second_loop:
  "i \<le> 31 \<Longrightarrow>
   calls_of ''sleep'' (second_loop i t) =
     calls_of ''sleep'' t @ replicate (nat (31 - i)) [I 1]"
proof (induction i t rule: second_loop.induct)
  case (1 i t)
  show ?case
  proof (cases "i \<le> 30")
    case True
    have "nat (31 - i) = Suc (nat (31 - (i + 1)))" using True by simp
    then have r: "replicate (nat (31 - i)) [I 1] = [I 1] # replicate (nat (31 - (i + 1))) [I 1]"
      by simp
    show ?thesis
      using "1.IH" [OF True] True
      by (subst second_loop.simps) (simp add: calls_of_append r)
  next
    case False
    with "1.prems" have "i = 31" by simp
    then show ?thesis by (subst second_loop.simps) simp
  qed
qed

lemma sleeps_test_timeouts:
  "calls_of ''sleep'' (test_timeouts time) = [[I 2], [I 5]] @ replicate 30 [I 1]"
  by (simp add: test_timeouts_def Let_def calls_of_append sleeps_second_loop)

text \<open>
  C2: invoked with first argument \<open>infinite\<close>, \<open>main\<close> calls \<open>infinite_loop_test\<close> and does
  not return: after every number of iterations the \<open>while (1)\<close> loop is still to be run
  from the next state, and it has no result. Invoked otherwise, \<open>main\<close> runs
  \<open>test_timeouts\<close>, whose sleeps are 2 s, 5 s and thirty times 1 s, and returns 0.
\<close>

theorem C2_timeout_modes:
  "(length argv > 1 \<and> argv ! 1 = ''infinite'' \<longrightarrow>
      main_timeout argv time = None \<and>
      (\<forall>n. infinite_loop_while time (infinite_loop_start time) =
            infinite_loop_while time
              ((infinite_loop_body time ^^ Suc n) (infinite_loop_start time)) \<and>
           counter ((infinite_loop_body time ^^ n) (infinite_loop_start time)) = of_nat n)) \<and>
   (\<not> (length argv > 1 \<and> argv ! 1 = ''infinite'') \<longrightarrow>
      main_timeout argv time = Some (test_timeouts time, 0) \<and>
      calls_of ''sleep'' (test_timeouts time) = [[I 2], [I 5]] @ replicate 30 [I 1])"
proof (intro conjI impI allI)
  assume "length argv > 1 \<and> argv ! 1 = ''infinite''"
  then show "main_timeout argv time = None"
    by (simp add: main_timeout_def infinite_loop_test_def infinite_loop_while_None)
next
  fix n
  show "infinite_loop_while time (infinite_loop_start time) =
        infinite_loop_while time ((infinite_loop_body time ^^ Suc n) (infinite_loop_start time))"
    by (rule infinite_loop_while_iterate)
  show "counter ((infinite_loop_body time ^^ n) (infinite_loop_start time)) = of_nat n"
    by (simp add: counter_iterate infinite_loop_start_def)
next
  assume "\<not> (length argv > 1 \<and> argv ! 1 = ''infinite'')"
  then show "main_timeout argv time = Some (test_timeouts time, 0)"
    by (auto simp: main_timeout_def)
next
  show "calls_of ''sleep'' (test_timeouts time) = [[I 2], [I 5]] @ replicate 30 [I 1]"
    by (rule sleeps_test_timeouts)
qed

theorem C2_timeout_modes_run:
  "main_timeout [''timeout'', ''infinite''] (\<lambda>k. 0) = None \<and>
   (\<exists>t. main_timeout [''timeout''] (\<lambda>k. 0) = Some (t, 0) \<and>
        calls_of ''sleep'' t = [[I 2], [I 5]] @ replicate 30 [I 1])"
  using C2_timeout_modes [of "[''timeout'', ''infinite'']" "\<lambda>k. 0"]
        C2_timeout_modes [of "[''timeout'']" "\<lambda>k. 0"]
  by simp

section \<open>Properties of memory.c\<close>

lemma chunk_size_eq: "chunk_size = 5242880"
  by (simp add: chunk_size_def MB_def)

lemma alloc_body_cases:
  assumes "0 \<le> i" "i < 200" "length (ptrs s) = 200"
    and "0 \<le> total_allocated s" "total_allocated s \<le> 500 * MB"
  shows "\<exists>s'. alloc_body env i s =
              (if malloc_chunk env i = 0 \<or> 500 * MB < total_allocated s'
               then Break s' else Continue s') \<and>
             total_allocated s' =
               (if malloc_chunk env i = 0 then total_allocated s
                else total_allocated s + 5 * MB) \<and>
             allocated_chunks s' =
               (if malloc_chunk env i = 0 then allocated_chunks s
                else allocated_chunks s + 1) \<and>
             length (ptrs s') = 200 \<and>
             calls_of ''malloc'' (trace s') =
               calls_of ''malloc'' (trace s) @ [[I (5 * 1024 * 1024)]]"
proof -
  have wrap: "(total_allocated s + 5242880) mod 2 ^ 64 = total_allocated s + 5242880"
    using assms(4,5) by (simp add: MB_def)
  consider (null) "malloc_chunk env i = 0"
    | (over) "malloc_chunk env i \<noteq> 0" "500 * MB < total_allocated s + 5 * MB"
    | (more) "malloc_chunk env i \<noteq> 0" "\<not> 500 * MB < total_allocated s + 5 * MB"
    by blast
  then show ?thesis
  proof cases
    case null
    then have "\<exists>s'. alloc_body env i s = Break s' \<and>
                 total_allocated s' = total_allocated s \<and>
                 allocated_chunks s' = allocated_chunks s \<and>
                 length (ptrs s') = 200 \<and>
                 calls_of ''malloc'' (trace s') =
                   calls_of ''malloc'' (trace s) @ [[I (5 * 1024 * 1024)]]"
      using assms(1-3)
      by (simp add: alloc_body_def Let_def chunk_size_eq calls_of_append)
    then obtain s' where "alloc_body env i s = Break s'"
      and "total_allocated s' = total_allocated s"
      and "allocated_chunks s' = allocated_chunks s"
      and "length (ptrs s') = 200"
      and "calls_of ''malloc'' (trace s') =
             calls_of ''malloc'' (trace s) @ [[I (5 * 1024 * 1024)]]"
      by blast
    with null show ?thesis by (intro exI [of _ s']) simp
  next
    case over
    then have "\<exists>s'. alloc_body env i s = Break s' \<and>
                 total_allocated s' = total_allocated s + 5 * MB \<and>
                 allocated_chunks s' = allocated_chunks s + 1 \<and>
                 length (ptrs s') = 200 \<and>
                 calls_of ''malloc'' (trace s') =
                   calls_of ''malloc'' (trace s) @ [[I (5 * 1024 * 1024)]]"
      using assms(1-3) wrap
      by (simp add: alloc_body_def Let_def chunk_size_eq calls_of_append MB_def)
    then obtain s' where "alloc_body env i s = Break s'"
      and "total_allocated s' = total_allocated s + 5 * MB"
      and "allocated_chunks s' = allocated_chunks s + 1"
      and "length (ptrs s') = 200"
      and "calls_of ''malloc'' (trace s') =
             calls_of ''malloc'' (trace s) @ [[I (5 * 1024 * 1024)]]"
      by blast
    with over show ?thesis by (intro exI [of _ s']) simp
  next
    case more
    then have "\<exists>s'. alloc_body env i s = Continue s' \<and>
                 total_allocated s' = total_allocated s + 5 * MB \<and>
                 allocated_chunks s' = allocated_chunks s + 1 \<and>
                 length (ptrs s') = 200 \<and>
                 calls_of ''malloc'' (trace s') =
                   calls_of ''malloc'' (trace s) @ [[I (5 * 1024 * 1024)]]"
      using assms(1-3) wrap
      by (simp add: alloc_body_def Let_def chunk_size_eq calls_of_append MB_def)
    then obtain s' where "alloc_body env i s = Continue s'"
      and "total_allocated s' = total_allocated s + 5 * MB"
      and "allocated_chunks s' = allocated_chunks s + 1"
      and "length (ptrs s') = 200"
      and "calls_of ''malloc'' (trace s') =
             calls_of ''malloc'' (trace s) @ [[I (5 * 1024 * 1024)]]"
      by blast
    with more show ?thesis by (intro exI [of _ s']) simp
  qed
qed

text \<open>What holds whenever the loop arrives at its test.\<close>

lemma alloc_head_invariant:
  assumes "alloc_head env (alloc_start t) n = Some s"
  shows "total_allocated s = 5 * MB * int n \<and> allocated_chunks s = int n \<and>
         length (ptrs s) = 200 \<and> total_allocated s \<le> 500 * MB \<and>
         calls_of ''malloc'' (trace s) =
           calls_of ''malloc'' t @ replicate n [I (5 * 1024 * 1024)]"
  using assms
proof (induction n arbitrary: s)
  case 0
  then show ?case by (auto simp: alloc_start_def MB_def)
next
  case (Suc n)
  from Suc.prems obtain r where r: "alloc_head env (alloc_start t) n = Some r"
    and lt: "int n < 200" and body: "alloc_body env (int n) r = Continue s"
    by (auto split: option.splits if_splits flow.splits)
  note inv = Suc.IH [OF r]
  have nonneg: "0 \<le> total_allocated r" using inv by (simp add: MB_def)
  from alloc_body_cases [of "int n" r env] lt inv nonneg body
  have "malloc_chunk env (int n) \<noteq> 0" and "\<not> 500 * MB < total_allocated s"
    and "total_allocated s = total_allocated r + 5 * MB"
    and "allocated_chunks s = allocated_chunks r + 1"
    and "length (ptrs s) = 200"
    and "calls_of ''malloc'' (trace s) =
           calls_of ''malloc'' (trace r) @ [[I (5 * 1024 * 1024)]]"
    by (auto split: if_splits)
  then show ?case
    using inv by (simp add: algebra_simps replicate_append_same)
qed

lemma alloc_head_bound:
  assumes "alloc_head env (alloc_start t) n = Some s"
  shows "n \<le> 100"
proof -
  from alloc_head_invariant [OF assms]
  have "5 * MB * int n \<le> 500 * MB" by simp
  then show ?thesis by (simp add: MB_def)
qed

text \<open>The loop of \<open>main\<close> goes through every such point.\<close>

lemma alloc_for_through_head:
  "alloc_head env s0 n = Some s \<Longrightarrow> alloc_for env 0 s0 = alloc_for env (int n) s"
proof (induction n arbitrary: s)
  case 0
  then show ?case by simp
next
  case (Suc n)
  from Suc.prems obtain r where r: "alloc_head env s0 n = Some r"
    and lt: "int n < 200" and body: "alloc_body env (int n) r = Continue s"
    by (auto split: option.splits if_splits flow.splits)
  have "alloc_for env (int n) r = alloc_for env (int n + 1) s"
    using lt body by (subst alloc_for.simps) simp
  with Suc.IH [OF r] show ?case by (simp add: add.commute)
qed

lemma alloc_body_null:
  assumes "0 \<le> i" "nat i < length (ptrs s)" "malloc_chunk env i = 0"
  shows "\<exists>s'. alloc_body env i s = Break s' \<and>
           total_allocated s' = total_allocated s \<and>
           allocated_chunks s' = allocated_chunks s \<and>
           ptrs s' = (ptrs s)[nat i := Some 0] \<and>
           trace s' = trace s @
             [Call ''malloc'' [I 5242880],
              Print (check_mark @ '' Memory allocation failed at chunk '' @ show_int i @
                     '' (limit reached)'' @ endl),
              Print (check_mark @ '' Total allocated before failure: '' @
                     show_nat (nat (total_allocated s div MB)) @ '' MB'' @ endl)]"
  using assms by (simp add: alloc_body_def Let_def chunk_size_eq)

lemma alloc_body_chunk:
  assumes "0 \<le> i" "nat i < length (ptrs s)" "malloc_chunk env i \<noteq> 0"
    and "0 \<le> total_allocated s" "total_allocated s \<le> 500 * MB"
  shows "\<exists>s'. alloc_body env i s =
             (if 500 * MB < total_allocated s + 5 * MB then Break s' else Continue s') \<and>
           total_allocated s' = total_allocated s + 5 * MB \<and>
           allocated_chunks s' = allocated_chunks s + 1 \<and>
           ptrs s' = (ptrs s)[nat i := Some (malloc_chunk env i)] \<and>
           trace s' = trace s @
             [Call ''malloc'' [I 5242880],
              Call ''memset'' [I (malloc_chunk env i), I 85, I 5242880],
              Print (check_mark @ '' Allocated chunk '' @ show_int (i + 1) @ '': '' @
                     show_nat (nat ((total_allocated s + 5 * MB) div MB)) @
                     '' MB total'' @ endl),
              Call ''usleep'' [I 100000]] @
             (if 500 * MB < total_allocated s + 5 * MB
              then [Print (warning_mark @ '' Allocated over 500 MB, stopping test'' @ endl)]
              else [])"
proof -
  have wrap: "(total_allocated s + 5242880) mod 2 ^ 64 = total_allocated s + 5242880"
    using assms(4,5) by (simp add: MB_def)
  show ?thesis
  proof (cases "500 * MB < total_allocated s + 5 * MB")
    case True
    then show ?thesis
      using assms(1-3) wrap
      by (simp add: alloc_body_def Let_def chunk_size_eq MB_def)
  next
    case False
    then show ?thesis
      using assms(1-3) wrap
      by (simp add: alloc_body_def Let_def chunk_size_eq MB_def)
  qed
qed

lemma alloc_for_run:
  assumes granted: "\<forall>i<k. malloc_chunk env (int i) \<noteq> 0" "k \<le> 101"
      "k < 101 \<longrightarrow> malloc_chunk env (int k) = 0"
    and head: "n \<le> k" "n \<le> 100" "total_allocated s = 5 * MB * int n"
      "allocated_chunks s = int n" "length (ptrs s) = 200"
      "\<forall>i<n. ptrs s ! i = Some (malloc_chunk env (int i))"
  shows "\<exists>s'. alloc_for env (int n) s = Left s' \<and>
           total_allocated s' = 5 * MB * int k \<and>
           allocated_chunks s' = int k \<and>
           length (ptrs s') = 200 \<and>
           (\<forall>i<k. ptrs s' ! i = Some (malloc_chunk env (int i))) \<and>
           calls_of ''malloc'' (trace s') =
             calls_of ''malloc'' (trace s) @
             replicate ((if k < 101 then k + 1 else 101) - n) [I 5242880] \<and>
           calls_of ''free'' (trace s') = calls_of ''free'' (trace s) \<and>
           prints (trace s') =
             prints (trace s) @ map chunk_line [n..<k] @ leaving_lines k"
  using head
proof (induction "k - n" arbitrary: n s)
  case 0
  then have nk: "n = k" and k: "k < 101" by simp_all
  then have null: "malloc_chunk env (int n) = 0" using granted(3) by simp
  from alloc_body_null [of "int n" s env] null "0.prems"
  obtain s' where body: "alloc_body env (int n) s = Break s'"
    and s': "total_allocated s' = total_allocated s" "allocated_chunks s' = allocated_chunks s"
      "ptrs s' = (ptrs s)[n := Some 0]"
      "trace s' = trace s @
             [Call ''malloc'' [I 5242880],
              Print (check_mark @ '' Memory allocation failed at chunk '' @ show_int (int n) @
                     '' (limit reached)'' @ endl),
              Print (check_mark @ '' Total allocated before failure: '' @
                     show_nat (nat (total_allocated s div MB)) @ '' MB'' @ endl)]"
    by auto
  have mb: "nat (total_allocated s div MB) = 5 * n"
    using "0.prems" by (simp add: MB_def)
  have "alloc_for env (int n) s = Left s'"
    using body "0.prems" by (subst alloc_for.simps) simp
  moreover have "\<forall>i<k. ptrs s' ! i = Some (malloc_chunk env (int i))"
    using s' "0.prems" nk by simp
  ultimately show ?case
    using s' "0.prems" nk k mb
    by (intro exI [of _ s'])
       (simp add: calls_of_append prints_append leaving_lines_def)
next
  case (Suc d)
  then have lt: "n < k" by simp
  then have chunk: "malloc_chunk env (int n) \<noteq> 0" using granted(1) by simp
  have range: "0 \<le> total_allocated s" "total_allocated s \<le> 500 * MB"
    using Suc.prems by (simp_all add: MB_def)
  from alloc_body_chunk [of "int n" s env] chunk range Suc.prems
  obtain s' where body: "alloc_body env (int n) s =
             (if 500 * MB < total_allocated s + 5 * MB then Break s' else Continue s')"
    and s': "total_allocated s' = total_allocated s + 5 * MB"
      "allocated_chunks s' = allocated_chunks s + 1"
      "ptrs s' = (ptrs s)[n := Some (malloc_chunk env (int n))]"
      "trace s' = trace s @
             [Call ''malloc'' [I 5242880],
              Call ''memset'' [I (malloc_chunk env (int n)), I 85, I 5242880],
              Print (check_mark @ '' Allocated chunk '' @ show_int (int n + 1) @ '': '' @
                     show_nat (nat ((total_allocated s + 5 * MB) div MB)) @
                     '' MB total'' @ endl),
              Call ''usleep'' [I 100000]] @
             (if 500 * MB < total_allocated s + 5 * MB
              then [Print (warning_mark @ '' Allocated over 500 MB, stopping test'' @ endl)]
              else [])"
    by auto
  have mb: "nat ((total_allocated s + 5 * MB) div MB) = 5 * (n + 1)"
    using Suc.prems by (simp add: MB_def)
  have line: "check_mark @ '' Allocated chunk '' @ show_int (int n + 1) @ '': '' @
              show_nat (nat ((total_allocated s + 5 * MB) div MB)) @ '' MB total'' @ endl =
              chunk_line n"
    unfolding mb by (simp add: chunk_line_def)
  have inv': "total_allocated s' = 5 * MB * int (Suc n)" "allocated_chunks s' = int (Suc n)"
      "length (ptrs s') = 200"
      "\<forall>i<Suc n. ptrs s' ! i = Some (malloc_chunk env (int i))"
    using s' Suc.prems by (auto simp: algebra_simps nth_list_update less_Suc_eq)
  have upt: "[n..<k] = n # [Suc n..<k]" using lt by (simp add: upt_conv_Cons)
  show ?case
  proof (cases "500 * MB < total_allocated s + 5 * MB")
    case True
    then have "n = 100" using Suc.prems by (simp add: MB_def)
    then have k: "k = 101" using lt granted(2) by simp
    have "alloc_for env (int n) s = Left s'"
      using body True Suc.prems by (subst alloc_for.simps) simp
    moreover have "\<forall>i<k. ptrs s' ! i = Some (malloc_chunk env (int i))"
      using inv' k \<open>n = 100\<close> by simp
    moreover have "prints (trace s') = prints (trace s) @ map chunk_line [n..<k] @ leaving_lines k"
      using s'(4) True line k \<open>n = 100\<close>
      by (simp add: prints_append leaving_lines_def)
    ultimately show ?thesis
      using s' inv' True k \<open>n = 100\<close>
      by (intro exI [of _ s']) (simp add: calls_of_append)
  next
    case False
    then have n: "n < 100" using Suc.prems by (simp add: MB_def)
    have "alloc_for env (int n) s = alloc_for env (int (Suc n)) s'"
      using body False Suc.prems by (subst alloc_for.simps) (simp add: add.commute)
    moreover have "\<exists>s''. alloc_for env (int (Suc n)) s' = Left s'' \<and>
           total_allocated s'' = 5 * MB * int k \<and>
           allocated_chunks s'' = int k \<and>
           length (ptrs s'') = 200 \<and>
           (\<forall>i<k. ptrs s'' ! i = Some (malloc_chunk env (int i))) \<and>
           calls_of ''malloc'' (trace s'') =
             calls_of ''malloc'' (trace s') @
             replicate ((if k < 101 then k + 1 else 101) - Suc n) [I 5242880] \<and>
           calls_of ''free'' (trace s'') = calls_of ''free'' (trace s') \<and>
           prints (trace s'') =
             prints (trace s') @ map chunk_line [Suc n..<k] @ leaving_lines k"
      using Suc.hyps(2) lt n inv' by (intro Suc.hyps(1)) simp_all
    moreover have "calls_of ''malloc'' (trace s') = calls_of ''malloc'' (trace s) @ [[I 5242880]]"
      and "calls_of ''free'' (trace s') = calls_of ''free'' (trace s)"
      and "prints (trace s') = prints (trace s) @ [chunk_line n]"
      using s'(4) False line by (simp_all add: calls_of_append prints_append)
    moreover have "(if k < 101 then k + 1 else 101) - n =
                   Suc ((if k < 101 then k + 1 else 101) - Suc n)"
      using lt granted(2) by auto
    ultimately show ?thesis
      by (auto simp: upt replicate_append_same)
  qed
qed

lemma free_for_run:
  assumes "allocated_chunks s = int k" "k \<le> length (ptrs s)"
    and "\<forall>i<k. ptrs s ! i = Some (p i) \<and> p i \<noteq> 0" and "j \<le> k"
  shows "\<exists>s'. free_for (int j) s = Left s' \<and>
           trace s' = trace s @ map (\<lambda>i. Call ''free'' [I (p i)]) [j..<k]"
  using assms
proof (induction "k - j" arbitrary: j s)
  case 0
  then have "free_for (int j) s = Left s"
    by (subst free_for.simps) simp
  then show ?case using "0.hyps" by simp
next
  case (Suc d)
  then have lt: "j < k" by simp
  let ?s = "s\<lparr>trace := trace s @ [Call ''free'' [I (p j)]]\<rparr>"
  have entry: "ptrs s ! j = Some (p j)" "p j \<noteq> 0" using Suc.prems lt by simp_all
  have "free_for (int j) s = free_for (int (Suc j)) ?s"
    using lt Suc.prems(1,2) entry
    by (subst free_for.simps) (simp add: add.commute)
  moreover have "\<exists>s'. free_for (int (Suc j)) ?s = Left s' \<and>
           trace s' = trace ?s @ map (\<lambda>i. Call ''free'' [I (p i)]) [Suc j..<k]"
    using Suc.hyps(2) Suc.prems lt by (intro Suc.hyps(1)) simp_all
  ultimately show ?case
    using lt by (auto simp: upt_conv_Cons)
qed

lemma granted_facts:
  defines "k \<equiv> \<lambda>env. min (granted env) 101"
  shows "\<forall>i<k env. malloc_chunk env (int i) \<noteq> 0"
    and "k env \<le> 101"
    and "k env < 101 \<longrightarrow> malloc_chunk env (int (k env)) = 0"
    and "(if k env < 101 then k env + 1 else 101) =
         (if granted env < 101 then granted env + 1 else 101)"
proof -
  note lead = leading_passes [of "\<lambda>i. malloc_chunk env (int i) \<noteq> 0" 200,
      folded granted_def]
  show "\<forall>i<k env. malloc_chunk env (int i) \<noteq> 0"
    using lead(2) by (simp add: k_def)
  show "k env \<le> 101" by (simp add: k_def)
  show "k env < 101 \<longrightarrow> malloc_chunk env (int (k env)) = 0"
    using lead(3) by (auto simp: k_def min_def)
  show "(if k env < 101 then k env + 1 else 101) =
         (if granted env < 101 then granted env + 1 else 101)"
    by (simp add: k_def min_def)
qed

lemma alloc_for_exact:
  "\<exists>s. alloc_for env 0 (alloc_start t) = Left s \<and>
        total_allocated s = 5 * MB * int (min (granted env) 101) \<and>
        allocated_chunks s = int (min (granted env) 101) \<and>
        length (ptrs s) = 200 \<and>
        (\<forall>i<min (granted env) 101. ptrs s ! i = Some (malloc_chunk env (int i))) \<and>
        calls_of ''malloc'' (trace s) =
          calls_of ''malloc'' t @
          replicate (if granted env < 101 then granted env + 1 else 101) [I 5242880] \<and>
        calls_of ''free'' (trace s) = calls_of ''free'' t \<and>
        prints (trace s) =
          prints t @ map chunk_line [0..<min (granted env) 101] @
          leaving_lines (min (granted env) 101)"
proof -
  have start: "total_allocated (alloc_start t) = 5 * MB * int 0"
    "allocated_chunks (alloc_start t) = int 0" "length (ptrs (alloc_start t)) = 200"
    "\<forall>i<0. ptrs (alloc_start t) ! i = Some (malloc_chunk env (int i))"
    "trace (alloc_start t) = t"
    by (simp_all add: alloc_start_def)
  have "\<exists>s'. alloc_for env (int 0) (alloc_start t) = Left s' \<and>
           total_allocated s' = 5 * MB * int (min (granted env) 101) \<and>
           allocated_chunks s' = int (min (granted env) 101) \<and>
           length (ptrs s') = 200 \<and>
           (\<forall>i<min (granted env) 101. ptrs s' ! i = Some (malloc_chunk env (int i))) \<and>
           calls_of ''malloc'' (trace s') =
             calls_of ''malloc'' (trace (alloc_start t)) @
             replicate ((if min (granted env) 101 < 101 then min (granted env) 101 + 1
                         else 101) - 0) [I 5242880] \<and>
           calls_of ''free'' (trace s') = calls_of ''free'' (trace (alloc_start t)) \<and>
           prints (trace s') =
             prints (trace (alloc_start t)) @ map chunk_line [0..<min (granted env) 101] @
             leaving_lines (min (granted env) 101)"
    by (rule alloc_for_run [OF granted_facts(1-3) _ _ start(1-4)]) simp_all
  then show ?thesis
    by (simp only: start(5) granted_facts(4) int_ops(1) diff_zero)
qed

lemma main_memory_failed:
  "malloc_small env = 0 \<Longrightarrow>
   main_memory env =
     Inr ([Print (''=== C Memory Allocation Test ==='' @ endl),
           Call ''malloc'' [I 1048576],
           Print (cross_mark @ '' Small allocation failed'' @ endl)], 1)"
  by (simp add: main_memory_def Let_def MB_def)

lemma main_memory_run:
  assumes "malloc_small env \<noteq> 0"
  shows "\<exists>tr. main_memory env = Inr (tr, 0) \<and>
           calls_of ''malloc'' tr =
             [I 1048576] #
             replicate (if granted env < 101 then granted env + 1 else 101) [I 5242880] \<and>
           calls_of ''free'' tr =
             [I (malloc_small env)] #
             map (\<lambda>i. [I (malloc_chunk env (int i))]) [0..<min (granted env) 101] \<and>
           prints tr =
             [''=== C Memory Allocation Test ==='' @ endl,
              check_mark @ '' Small allocation (1 MB) successful'' @ endl,
              ''Testing progressive allocation in 5 MB chunks...'' @ endl] @
             map chunk_line [0..<min (granted env) 101] @
             leaving_lines (min (granted env) 101) @
             [''Final stats: '' @ show_int (int (min (granted env) 101)) @
              '' chunks allocated, '' @ show_nat (5 * min (granted env) 101) @
              '' MB total'' @ endl,
              check_mark @ '' Memory cleanup completed'' @ endl]"
proof -
  define k where "k = min (granted env) 101"
  define t1 where "t1 =
    [Print (''=== C Memory Allocation Test ==='' @ endl), Call ''malloc'' [I MB]] @
    [Print (check_mark @ '' Small allocation (1 MB) successful'' @ endl),
     Call ''memset'' [I (malloc_small env), I 0xAA, I MB],
     Call ''free'' [I (malloc_small env)],
     Print (''Testing progressive allocation in '' @
            show_nat (nat (chunk_size div MB)) @ '' MB chunks...'' @ endl)]"
  from alloc_for_exact [of env t1] obtain s where
    loop: "alloc_for env 0 (alloc_start t1) = Left s"
    and total: "total_allocated s = 5 * MB * int k"
    and chunks: "allocated_chunks s = int k"
    and len: "length (ptrs s) = 200"
    and entries: "\<forall>i<k. ptrs s ! i = Some (malloc_chunk env (int i))"
    and mallocs: "calls_of ''malloc'' (trace s) =
          calls_of ''malloc'' t1 @
          replicate (if granted env < 101 then granted env + 1 else 101) [I 5242880]"
    and frees: "calls_of ''free'' (trace s) = calls_of ''free'' t1"
    and lines: "prints (trace s) = prints t1 @ map chunk_line [0..<k] @ leaving_lines k"
    unfolding k_def by blast
  define s1 where "s1 = s\<lparr>trace := trace s @
      [Print (''Final stats: '' @ show_int (allocated_chunks s) @ '' chunks allocated, '' @
              show_nat (nat (total_allocated s div MB)) @ '' MB total'' @ endl)]\<rparr>"
  have "\<exists>s'. free_for (int 0) s1 = Left s' \<and>
           trace s' = trace s1 @ map (\<lambda>i. Call ''free'' [I (malloc_chunk env (int i))]) [0..<k]"
  proof (rule free_for_run)
    show "allocated_chunks s1 = int k" by (simp add: s1_def chunks)
    show "k \<le> length (ptrs s1)" by (simp add: s1_def len k_def)
    show "\<forall>i<k. ptrs s1 ! i = Some (malloc_chunk env (int i)) \<and> malloc_chunk env (int i) \<noteq> 0"
      using entries granted_facts(1) [of env] by (simp add: s1_def k_def)
    show "0 \<le> k" by simp
  qed
  then obtain s' where free: "free_for 0 s1 = Left s'"
    and tr: "trace s' = trace s1 @ map (\<lambda>i. Call ''free'' [I (malloc_chunk env (int i))]) [0..<k]"
    by auto
  have main: "main_memory env =
        Inr (trace s' @ [Print (check_mark @ '' Memory cleanup completed'' @ endl)], 0)"
    unfolding main_memory_def Let_def t1_def [symmetric]
    using assms
    by (simp only: simp_thms if_True loop left.case s1_def [symmetric] free)
  have mb: "nat (total_allocated s div MB) = 5 * k"
    using total by (simp add: MB_def)
  have five: "show_nat (nat (chunk_size div MB)) = ''5''"
    by (simp add: chunk_size_eq MB_def show_nat.simps digit_char_def)
  have "calls_of ''malloc'' (trace s' @ [Print (check_mark @ '' Memory cleanup completed'' @ endl)]) =
          [I 1048576] #
          replicate (if granted env < 101 then granted env + 1 else 101) [I 5242880]"
    by (simp add: tr s1_def calls_of_append calls_of_map_Call mallocs t1_def MB_def)
  moreover have "calls_of ''free'' (trace s' @ [Print (check_mark @ '' Memory cleanup completed'' @ endl)]) =
          [I (malloc_small env)] # map (\<lambda>i. [I (malloc_chunk env (int i))]) [0..<k]"
    by (simp add: tr s1_def calls_of_append calls_of_map_Call frees t1_def)
  moreover have "prints (trace s' @ [Print (check_mark @ '' Memory cleanup completed'' @ endl)]) =
          [''=== C Memory Allocation Test ==='' @ endl,
           check_mark @ '' Small allocation (1 MB) successful'' @ endl,
           ''Testing progressive allocation in 5 MB chunks...'' @ endl] @
          map chunk_line [0..<k] @ leaving_lines k @
          [''Final stats: '' @ show_int (int k) @ '' chunks allocated, '' @
           show_nat (5 * k) @ '' MB total'' @ endl,
           check_mark @ '' Memory cleanup completed'' @ endl]"
    by (simp add: tr s1_def prints_append prints_map_Call lines t1_def five chunks mb)
  ultimately show ?thesis
    unfolding k_def [symmetric] using main by blast
qed

lemma granted_leading:
  "\<forall>i<granted env. malloc_chunk env (int i) \<noteq> 0"
  "granted env \<le> 200"
  "granted env < 200 \<longrightarrow> malloc_chunk env (int (granted env)) = 0"
  using leading_passes [of "\<lambda>i. malloc_chunk env (int i) \<noteq> 0" 200, folded granted_def]
  by auto

lemma alloc_head_leading:
  assumes "alloc_head env (alloc_start t) n = Some s"
  shows "\<forall>i<n. malloc_chunk env (int i) \<noteq> 0"
  using assms
proof (induction n arbitrary: s)
  case 0
  then show ?case by simp
next
  case (Suc n)
  from Suc.prems obtain r where r: "alloc_head env (alloc_start t) n = Some r"
    and lt: "int n < 200" and body: "alloc_body env (int n) r = Continue s"
    by (auto split: option.splits if_splits flow.splits)
  note inv = alloc_head_invariant [OF r]
  have nonneg: "0 \<le> total_allocated r" using inv by (simp add: MB_def)
  from alloc_body_cases [of "int n" r env] lt inv nonneg body
  have "malloc_chunk env (int n) \<noteq> 0"
    by (auto split: if_splits)
  with Suc.IH [OF r] show ?case by (auto simp: less_Suc_eq)
qed

lemma alloc_head_granted:
  assumes "alloc_head env (alloc_start t) n = Some s"
  shows "n \<le> granted env"
proof (rule ccontr)
  assume "\<not> n \<le> granted env"
  then have lt: "granted env < n" by simp
  moreover have "n \<le> 100" by (rule alloc_head_bound [OF assms])
  ultimately have "malloc_chunk env (int (granted env)) = 0"
    using granted_leading(3) [of env] by simp
  with alloc_head_leading [OF assms] lt show False by blast
qed

lemma alloc_head_exists:
  "n \<le> granted env \<Longrightarrow> n \<le> 100 \<Longrightarrow> \<exists>s. alloc_head env (alloc_start t) n = Some s"
proof (induction n)
  case 0
  then show ?case by simp
next
  case (Suc n)
  then obtain r where r: "alloc_head env (alloc_start t) n = Some r" by auto
  note inv = alloc_head_invariant [OF r]
  have n: "n < 100" using Suc.prems by simp
  have chunk: "malloc_chunk env (int n) \<noteq> 0"
    using Suc.prems granted_leading(1) [of env] by simp
  have range: "0 \<le> total_allocated r" "total_allocated r \<le> 500 * MB"
    using inv by (simp_all add: MB_def)
  have "\<not> 500 * MB < total_allocated r + 5 * MB"
    using inv n by (simp add: MB_def)
  with alloc_body_chunk [of "int n" r env] chunk range inv n
  obtain s' where "alloc_body env (int n) r = Continue s'" by auto
  then show ?case using r n by simp
qed

text \<open>
  C3: the progressive-allocation loop of \<open>main\<close> requests chunks of exactly
  \<open>5 * 1024 * 1024\<close> bytes and adds exactly 5 MB to \<open>total_allocated\<close> per granted chunk.
  With \<open>granted env\<close> the number of leading passes whose \<open>malloc\<close> is not \<open>NULL\<close>, the
  loop is left at the first \<open>NULL\<close>, after \<open>granted env + 1\<close> requests, or, when 101
  chunks were granted, as soon as the total of 505 MB exceeds 500 MB, after 101 requests
  (so within the 200 passes of the loop test); it ends with \<open>min (granted env) 101\<close>
  chunks, that many times 5 MB, and has printed the running totals 5, 10, ... MB. The
  loop arrives at its test for pass \<open>n\<close> exactly when \<open>n\<close> is at most \<open>granted env\<close>
  and at most 100; \<open>total_allocated\<close> is then \<open>n\<close> times 5 MB, and the pass adds nothing
  or exactly 5 MB, so the total is at most 505 MB at every point. \<open>main\<close> runs this loop, frees the
  granted chunks and returns 0; it returns 1 when the small allocation fails.
\<close>

theorem C3_progressive_allocation:
  "(alloc_head env (alloc_start t) n = Some s \<longrightarrow>
      n \<le> 100 \<and> int n < 200 \<and>
      alloc_for env 0 (alloc_start t) = alloc_for env (int n) s \<and>
      total_allocated s = 5 * MB * int n \<and>
      total_allocated s \<le> 505 * MB \<and>
      calls_of ''malloc'' (trace s) =
        calls_of ''malloc'' t @ replicate n [I (5 * 1024 * 1024)] \<and>
      (\<exists>s'. alloc_body env (int n) s =
              (if malloc_chunk env (int n) = 0 \<or> 500 * MB < total_allocated s'
               then Break s' else Continue s') \<and>
            total_allocated s' =
              (if malloc_chunk env (int n) = 0 then total_allocated s
               else total_allocated s + 5 * MB) \<and>
            total_allocated s' \<le> 505 * MB \<and>
            calls_of ''malloc'' (trace s') =
              calls_of ''malloc'' (trace s) @ [[I (5 * 1024 * 1024)]])) \<and>
   alloc_head env (alloc_start t) 101 = None \<and>
   (alloc_head env (alloc_start t) n \<noteq> None) = (n \<le> granted env \<and> n \<le> 100) \<and>
   granted env \<le> 200 \<and>
   (\<forall>i<granted env. malloc_chunk env (int i) \<noteq> 0) \<and>
   (granted env < 200 \<longrightarrow> malloc_chunk env (int (granted env)) = 0) \<and>
   (\<exists>s. alloc_for env 0 (alloc_start t) = Left s \<and>
        allocated_chunks s = int (min (granted env) 101) \<and>
        total_allocated s = 5 * MB * int (min (granted env) 101) \<and>
        total_allocated s \<le> 505 * MB \<and>
        calls_of ''malloc'' (trace s) =
          calls_of ''malloc'' t @
          replicate (if granted env < 101 then granted env + 1 else 101)
            [I (5 * 1024 * 1024)] \<and>
        prints (trace s) =
          prints t @ map chunk_line [0..<min (granted env) 101] @
          leaving_lines (min (granted env) 101)) \<and>
   (malloc_small env = 0 \<longrightarrow>
      main_memory env =
        Inr ([Print (''=== C Memory Allocation Test ==='' @ endl),
              Call ''malloc'' [I (1024 * 1024)],
              Print (cross_mark @ '' Small allocation failed'' @ endl)], 1)) \<and>
   (malloc_small env \<noteq> 0 \<longrightarrow>
      (\<exists>tr. main_memory env = Inr (tr, 0) \<and>
            calls_of ''malloc'' tr =
              [I (1024 * 1024)] #
              replicate (if granted env < 101 then granted env + 1 else 101)
                [I (5 * 1024 * 1024)] \<and>
            calls_of ''free'' tr =
              [I (malloc_small env)] #
              map (\<lambda>i. [I (malloc_chunk env (int i))]) [0..<min (granted env) 101] \<and>
            prints tr =
              [''=== C Memory Allocation Test ==='' @ endl,
               check_mark @ '' Small allocation (1 MB) successful'' @ endl,
               ''Testing progressive allocation in 5 MB chunks...'' @ endl] @
              map chunk_line [0..<min (granted env) 101] @
              leaving_lines (min (granted env) 101) @
              [''Final stats: '' @ show_int (int (min (granted env) 101)) @
               '' chunks allocated, '' @ show_nat (5 * min (granted env) 101) @
               '' MB total'' @ endl,
               check_mark @ '' Memory cleanup completed'' @ endl]))"
proof (intro conjI impI)
  assume head: "alloc_head env (alloc_start t) n = Some s"
  note inv = alloc_head_invariant [OF head]
  show n: "n \<le> 100" by (rule alloc_head_bound [OF head])
  then show "int n < 200" by simp
  show "alloc_for env 0 (alloc_start t) = alloc_for env (int n) s"
    by (rule alloc_for_through_head [OF head])
  show "total_allocated s = 5 * MB * int n" using inv by simp
  show "total_allocated s \<le> 505 * MB" using inv by (simp add: MB_def)
  show "calls_of ''malloc'' (trace s) =
        calls_of ''malloc'' t @ replicate n [I (5 * 1024 * 1024)]"
    using inv by simp
  have nonneg: "0 \<le> total_allocated s" using inv by (simp add: MB_def)
  from alloc_body_cases [of "int n" s env] n inv nonneg
  obtain s' where body: "alloc_body env (int n) s =
        (if malloc_chunk env (int n) = 0 \<or> 500 * MB < total_allocated s'
         then Break s' else Continue s')"
    and total: "total_allocated s' =
        (if malloc_chunk env (int n) = 0 then total_allocated s
         else total_allocated s + 5 * MB)"
    and calls: "calls_of ''malloc'' (trace s') =
        calls_of ''malloc'' (trace s) @ [[I (5 * 1024 * 1024)]]"
    by auto
  have "total_allocated s' \<le> 505 * MB"
    using total inv by (simp add: MB_def split: if_splits)
  with body total calls
  show "\<exists>s'. alloc_body env (int n) s =
              (if malloc_chunk env (int n) = 0 \<or> 500 * MB < total_allocated s'
               then Break s' else Continue s') \<and>
            total_allocated s' =
              (if malloc_chunk env (int n) = 0 then total_allocated s
               else total_allocated s + 5 * MB) \<and>
            total_allocated s' \<le> 505 * MB \<and>
            calls_of ''malloc'' (trace s') =
              calls_of ''malloc'' (trace s) @ [[I (5 * 1024 * 1024)]]"
    by (intro exI [of _ s']) simp
next
  show "alloc_head env (alloc_start t) 101 = None"
  proof (cases "alloc_head env (alloc_start t) 101")
    case None
    then show ?thesis .
  next
    case (Some r)
    from alloc_head_bound [OF this] show ?thesis by simp
  qed
next
  show "(alloc_head env (alloc_start t) n \<noteq> None) = (n \<le> granted env \<and> n \<le> 100)"
    using alloc_head_granted [of env t n] alloc_head_bound [of env t n]
      alloc_head_exists [of n env t]
    by auto
next
  show "granted env \<le> 200" by (rule granted_leading(2))
next
  show "\<forall>i<granted env. malloc_chunk env (int i) \<noteq> 0" by (rule granted_leading(1))
next
  assume "granted env < 200"
  then show "malloc_chunk env (int (granted env)) = 0"
    using granted_leading(3) [of env] by simp
next
  from alloc_for_exact [of env t] obtain s where
    loop: "alloc_for env 0 (alloc_start t) = Left s"
    and total: "total_allocated s = 5 * MB * int (min (granted env) 101)"
    and chunks: "allocated_chunks s = int (min (granted env) 101)"
    and mallocs: "calls_of ''malloc'' (trace s) =
          calls_of ''malloc'' t @
          replicate (if granted env < 101 then granted env + 1 else 101) [I 5242880]"
    and lines: "prints (trace s) =
          prints t @ map chunk_line [0..<min (granted env) 101] @
          leaving_lines (min (granted env) 101)"
    by blast
  have "total_allocated s \<le> 505 * MB"
    unfolding total by (simp add: MB_def)
  with loop total chunks mallocs lines
  show "\<exists>s. alloc_for env 0 (alloc_start t) = Left s \<and>
        allocated_chunks s = int (min (granted env) 101) \<and>
        total_allocated s = 5 * MB * int (min (granted env) 101) \<and>
        total_allocated s \<le> 505 * MB \<and>
        calls_of ''malloc'' (trace s) =
          calls_of ''malloc'' t @
          replicate (if granted env < 101 then granted env + 1 else 101)
            [I (5 * 1024 * 1024)] \<and>
        prints (trace s) =
          prints t @ map chunk_line [0..<min (granted env) 101] @
          leaving_lines (min (granted env) 101)"
    by (intro exI [of _ s]) simp
next
  assume "malloc_small env = 0"
  then show "main_memory env =
        Inr ([Print (''=== C Memory Allocation Test ==='' @ endl),
              Call ''malloc'' [I (1024 * 1024)],
              Print (cross_mark @ '' Small allocation failed'' @ endl)], 1)"
    by (simp add: main_memory_failed)
next
  assume "malloc_small env \<noteq> 0"
  from main_memory_run [OF this]
  show "\<exists>tr. main_memory env = Inr (tr, 0) \<and>
            calls_of ''malloc'' tr =
              [I (1024 * 1024)] #
              replicate (if granted env < 101 then granted env + 1 else 101)
                [I (5 * 1024 * 1024)] \<and>
            calls_of ''free'' tr =
              [I (malloc_small env)] #
              map (\<lambda>i. [I (malloc_chunk env (int i))]) [0..<min (granted env) 101] \<and>
            prints tr =
              [''=== C Memory Allocation Test ==='' @ endl,
               check_mark @ '' Small allocation (1 MB) successful'' @ endl,
               ''Testing progressive allocation in 5 MB chunks...'' @ endl] @
              map chunk_line [0..<min (granted env) 101] @
              leaving_lines (min (granted env) 101) @
              [''Final stats: '' @ show_int (int (min (granted env) 101)) @
               '' chunks allocated, '' @ show_nat (5 * min (granted env) 101) @
               '' MB total'' @ endl,
               check_mark @ '' Memory cleanup completed'' @ endl]"
    by simp
qed

theorem C3_two_chunks_then_null:
  "(\<exists>s. alloc_head \<lparr>malloc_small = 4096, malloc_chunk = (\<lambda>i. if i < 2 then 8192 + i else 0)\<rparr>
           (alloc_start []) 2 = Some s \<and>
        total_allocated s = 10 * MB \<and>
        calls_of ''malloc'' (trace s) = [[I 5242880], [I 5242880]] \<and>
        (\<exists>s'. alloc_body \<lparr>malloc_small = 4096,
                            malloc_chunk = (\<lambda>i. if i < 2 then 8192 + i else 0)\<rparr> 2 s =
                 Break s' \<and>
               total_allocated s' = 10 * MB)) \<and>
   (\<exists>s. alloc_for \<lparr>malloc_small = 4096, malloc_chunk = (\<lambda>i. if i < 2 then 8192 + i else 0)\<rparr>
          0 (alloc_start []) = Left s \<and>
        allocated_chunks s = 2 \<and>
        total_allocated s = 10 * MB \<and>
        calls_of ''malloc'' (trace s) = [[I 5242880], [I 5242880], [I 5242880]]) \<and>
   (\<exists>tr. main_memory \<lparr>malloc_small = 4096,
                        malloc_chunk = (\<lambda>i. if i < 2 then 8192 + i else 0)\<rparr> = Inr (tr, 0) \<and>
         calls_of ''malloc'' tr = [[I 1048576], [I 5242880], [I 5242880], [I 5242880]] \<and>
         calls_of ''free'' tr = [[I 4096], [I 8192], [I 8193]] \<and>
         prints tr =
           [''=== C Memory Allocation Test ==='' @ endl,
            check_mark @ '' Small allocation (1 MB) successful'' @ endl,
            ''Testing progressive allocation in 5 MB chunks...'' @ endl,
            check_mark @ '' Allocated chunk 1: 5 MB total'' @ endl,
            check_mark @ '' Allocated chunk 2: 10 MB total'' @ endl,
            check_mark @ '' Memory allocation failed at chunk 2 (limit reached)'' @ endl,
            check_mark @ '' Total allocated before failure: 10 MB'' @ endl,
            ''Final stats: 2 chunks allocated, 10 MB total'' @ endl,
            check_mark @ '' Memory cleanup completed'' @ endl])"
proof -
  let ?env = "\<lparr>malloc_small = 4096, malloc_chunk = (\<lambda>i::int. if i < 2 then 8192 + i else 0)\<rparr>"
  have g: "granted ?env = 2"
    unfolding granted_def by (rule leading_passes_eq) simp_all
  have up: "[0..<2] = [0, 1]" by (simp add: numeral_2_eq_2)
  have "\<exists>s. alloc_head ?env (alloc_start []) (Suc (Suc 0)) = Some s"
    by (simp add: alloc_body_def alloc_start_def Let_def chunk_size_eq MB_def)
  then obtain s where head: "alloc_head ?env (alloc_start []) 2 = Some s"
    by (auto simp: numeral_2_eq_2)
  note run = C3_progressive_allocation [of ?env "[]" 2 s]
  have total: "total_allocated s = 5 * MB * int 2"
    and calls: "calls_of ''malloc'' (trace s) =
        calls_of ''malloc'' [] @ replicate 2 [I (5 * 1024 * 1024)]"
    and "\<exists>s'. alloc_body ?env (int 2) s =
              (if malloc_chunk ?env (int 2) = 0 \<or> 500 * MB < total_allocated s'
               then Break s' else Continue s') \<and>
            total_allocated s' =
              (if malloc_chunk ?env (int 2) = 0 then total_allocated s
               else total_allocated s + 5 * MB) \<and>
            total_allocated s' \<le> 505 * MB \<and>
            calls_of ''malloc'' (trace s') =
              calls_of ''malloc'' (trace s) @ [[I (5 * 1024 * 1024)]]"
    using run head by blast+
  then have pass: "\<exists>s'. alloc_body ?env 2 s = Break s' \<and> total_allocated s' = 10 * MB"
    using total by (auto simp: MB_def)
  have first: "\<exists>s. alloc_head ?env (alloc_start []) 2 = Some s \<and>
        total_allocated s = 10 * MB \<and>
        calls_of ''malloc'' (trace s) = [[I 5242880], [I 5242880]] \<and>
        (\<exists>s'. alloc_body ?env 2 s = Break s' \<and> total_allocated s' = 10 * MB)"
    using head total calls pass
    by (intro exI [of _ s]) (simp add: MB_def numeral_2_eq_2)
  have "\<exists>s. alloc_for ?env 0 (alloc_start []) = Left s \<and>
        allocated_chunks s = int (min (granted ?env) 101) \<and>
        total_allocated s = 5 * MB * int (min (granted ?env) 101) \<and>
        total_allocated s \<le> 505 * MB \<and>
        calls_of ''malloc'' (trace s) =
          calls_of ''malloc'' [] @
          replicate (if granted ?env < 101 then granted ?env + 1 else 101)
            [I (5 * 1024 * 1024)] \<and>
        prints (trace s) =
          prints [] @ map chunk_line [0..<min (granted ?env) 101] @
          leaving_lines (min (granted ?env) 101)"
    using run by blast
  then have second: "\<exists>s. alloc_for ?env 0 (alloc_start []) = Left s \<and>
        allocated_chunks s = 2 \<and>
        total_allocated s = 10 * MB \<and>
        calls_of ''malloc'' (trace s) = [[I 5242880], [I 5242880], [I 5242880]]"
    by (auto simp: g MB_def numeral_3_eq_3)
  have "malloc_small ?env \<noteq> 0" by simp
  then have "\<exists>tr. main_memory ?env = Inr (tr, 0) \<and>
            calls_of ''malloc'' tr =
              [I (1024 * 1024)] #
              replicate (if granted ?env < 101 then granted ?env + 1 else 101)
                [I (5 * 1024 * 1024)] \<and>
            calls_of ''free'' tr =
              [I (malloc_small ?env)] #
              map (\<lambda>i. [I (malloc_chunk ?env (int i))]) [0..<min (granted ?env) 101] \<and>
            prints tr =
              [''=== C Memory Allocation Test ==='' @ endl,
               check_mark @ '' Small allocation (1 MB) successful'' @ endl,
               ''Testing progressive allocation in 5 MB chunks...'' @ endl] @
              map chunk_line [0..<min (granted ?env) 101] @
              leaving_lines (min (granted ?env) 101) @
              [''Final stats: '' @ show_int (int (min (granted ?env) 101)) @
               '' chunks allocated, '' @ show_nat (5 * min (granted ?env) 101) @
               '' MB total'' @ endl,
               check_mark @ '' Memory cleanup completed'' @ endl]"
    using run by blast
  then have third: "\<exists>tr. main_memory ?env = Inr (tr, 0) \<and>
         calls_of ''malloc'' tr = [[I 1048576], [I 5242880], [I 5242880], [I 5242880]] \<and>
         calls_of ''free'' tr = [[I 4096], [I 8192], [I 8193]] \<and>
         prints tr =
           [''=== C Memory Allocation Test ==='' @ endl,
            check_mark @ '' Small allocation (1 MB) successful'' @ endl,
            ''Testing progressive allocation in 5 MB chunks...'' @ endl,
            check_mark @ '' Allocated chunk 1: 5 MB total'' @ endl,
            check_mark @ '' Allocated chunk 2: 10 MB total'' @ endl,
            check_mark @ '' Memory allocation failed at chunk 2 (limit reached)'' @ endl,
            check_mark @ '' Total allocated before failure: 10 MB'' @ endl,
            ''Final stats: 2 chunks allocated, 10 MB total'' @ endl,
            check_mark @ '' Memory cleanup completed'' @ endl]"
    by (simp add: g up chunk_line_def leaving_lines_def show_int_def show_nat.simps
        digit_char_def numeral_3_eq_3)
  from first second third show ?thesis by (intro conjI)
qed

section \<open>Properties of fork.c\<close>

lemma fork_body_cases:
  assumes "0 \<le> created_count s" "nat (created_count s) < length (children s)"
  shows "\<exists>s'. fork_body env i s =
              (if fork_multi env i = -1 then Break s'
               else if fork_multi env i = 0 then Exit s' i
               else Continue s') \<and>
             created_count s' =
               (if fork_multi env i = -1 \<or> fork_multi env i = 0 then created_count s
                else created_count s + 1) \<and>
             children s' =
               (if fork_multi env i = -1 \<or> fork_multi env i = 0 then children s
                else (children s)[nat (created_count s) := Some (fork_multi env i)]) \<and>
             calls_of ''fork'' (trace s') = calls_of ''fork'' (trace s) @ [[]]"
proof -
  consider (failed) "fork_multi env i = -1" | (child) "fork_multi env i = 0"
    | (parent) "fork_multi env i \<noteq> -1" "fork_multi env i \<noteq> 0"
    by blast
  then show ?thesis
  proof cases
    case failed
    then show ?thesis
      by (simp add: fork_body_def Let_def calls_of_append)
  next
    case child
    then show ?thesis
      by (simp add: fork_body_def Let_def calls_of_append)
  next
    case parent
    then show ?thesis
      using assms by (simp add: fork_body_def Let_def calls_of_append)
  qed
qed

lemma fork_head_invariant:
  assumes "fork_head env (fork_start t) n = Some s"
  shows "created_count s = int n \<and> length (children s) = 50 \<and> n \<le> 50 \<and>
         forks_succeeded env n = n \<and>
         calls_of ''fork'' (trace s) = calls_of ''fork'' t @ replicate n []"
  using assms
proof (induction n arbitrary: s)
  case 0
  then show ?case by (auto simp: fork_start_def forks_succeeded_def)
next
  case (Suc n)
  from Suc.prems obtain r where r: "fork_head env (fork_start t) n = Some r"
    and lt: "int n < max_processes" and body: "fork_body env (int n) r = Continue s"
    by (auto split: option.splits if_splits flow.splits)
  note inv = Suc.IH [OF r]
  have n: "n < 50" using lt by (simp add: max_processes_def)
  from fork_body_cases [of r env "int n"] inv n body
  have "fork_multi env (int n) \<noteq> -1"
    and "created_count s = created_count r + 1"
    and "children s = (children r)[nat (created_count r) := Some (fork_multi env (int n))]"
    and "calls_of ''fork'' (trace s) = calls_of ''fork'' (trace r) @ [[]]"
    by (auto split: if_splits)
  then show ?case
    using inv n by (simp add: forks_succeeded_def replicate_append_same)
qed

lemma fork_body_failed:
  assumes "fork_multi env i = - 1"
  shows "\<exists>s'. fork_body env i s = Break s' \<and>
           created_count s' = created_count s \<and> children s' = children s \<and>
           trace s' = trace s @
             [Call ''fork'' [],
              Print (check_mark @ '' Process creation blocked at '' @ show_int i @
                     '' processes: '' @ fork_multi_error env i @ endl)]"
  using assms by (simp add: fork_body_def Let_def)

lemma fork_body_child:
  assumes "fork_multi env i = 0"
  shows "\<exists>s'. fork_body env i s = Exit s' i \<and>
           created_count s' = created_count s \<and> children s' = children s \<and>
           trace s' = trace s @
             [Call ''fork'' [], Call ''getpid'' [],
              Print (''Child '' @ show_int i @ '': PID '' @ show_int (getpid env) @ endl),
              Call ''sleep'' [I 5]]"
  using assms by (simp add: fork_body_def Let_def)

lemma fork_body_parent:
  assumes "fork_multi env i \<noteq> - 1" "fork_multi env i \<noteq> 0"
    and "0 \<le> created_count s" "nat (created_count s) < length (children s)"
  shows "\<exists>s'. fork_body env i s = Continue s' \<and>
           created_count s' = created_count s + 1 \<and>
           children s' = (children s)[nat (created_count s) := Some (fork_multi env i)] \<and>
           trace s' = trace s @
             [Call ''fork'' [],
              Print (check_mark @ '' Created child '' @ show_int i @ '': PID '' @
                     show_int (fork_multi env i) @ endl),
              Call ''usleep'' [I 100000]]"
  using assms by (simp add: fork_body_def Let_def)

lemma fork_for_run:
  assumes parent: "\<forall>i<k. fork_multi env (int i) \<noteq> - 1 \<and> fork_multi env (int i) \<noteq> 0"
      "k \<le> 50"
      "k < 50 \<longrightarrow> fork_multi env (int k) = - 1 \<or> fork_multi env (int k) = 0"
    and head: "n \<le> k" "created_count s = int n" "length (children s) = 50"
      "\<forall>i<n. children s ! i = Some (fork_multi env (int i))"
  shows "\<exists>s'. fork_for env (int n) s =
             (if k < 50 \<and> fork_multi env (int k) = 0 then Exited s' (int k) else Left s') \<and>
           created_count s' = int k \<and>
           length (children s') = 50 \<and>
           (\<forall>i<k. children s' ! i = Some (fork_multi env (int i))) \<and>
           (\<forall>i. k \<le> i \<longrightarrow> children s' ! i = children s ! i) \<and>
           calls_of ''fork'' (trace s') =
             calls_of ''fork'' (trace s) @ replicate ((if k < 50 then k + 1 else 50) - n) [] \<and>
           calls_of ''waitpid'' (trace s') = calls_of ''waitpid'' (trace s) \<and>
           prints (trace s') =
             prints (trace s) @ map (created_line env) [n..<k] @ fork_leaving_lines env k"
  using head
proof (induction "k - n" arbitrary: n s)
  case 0
  then have nk: "n = k" by simp
  consider (full) "k = 50" | (failed) "k < 50" "fork_multi env (int k) = - 1"
    | (child) "k < 50" "fork_multi env (int k) = 0"
    using parent(2,3) by force
  then show ?case
  proof cases
    case full
    then have "fork_for env (int n) s = Left s"
      using nk by (subst fork_for.simps) (simp add: max_processes_def)
    then show ?thesis
      using full nk "0.prems"
      by (intro exI [of _ s]) (simp add: fork_leaving_lines_def)
  next
    case failed
    from fork_body_failed [of env "int k" s] failed
    obtain s' where body: "fork_body env (int k) s = Break s'"
      and s': "created_count s' = created_count s" "children s' = children s"
        "trace s' = trace s @
             [Call ''fork'' [],
              Print (check_mark @ '' Process creation blocked at '' @ show_int (int k) @
                     '' processes: '' @ fork_multi_error env (int k) @ endl)]"
      by auto
    have "fork_for env (int n) s = Left s'"
      using body failed nk by (subst fork_for.simps) (simp add: max_processes_def)
    then show ?thesis
      using failed nk "0.prems" s'
      by (intro exI [of _ s'])
         (simp add: fork_leaving_lines_def calls_of_append prints_append)
  next
    case child
    from fork_body_child [of env "int k" s] child
    obtain s' where body: "fork_body env (int k) s = Exit s' (int k)"
      and s': "created_count s' = created_count s" "children s' = children s"
        "trace s' = trace s @
             [Call ''fork'' [], Call ''getpid'' [],
              Print (''Child '' @ show_int (int k) @ '': PID '' @ show_int (getpid env) @ endl),
              Call ''sleep'' [I 5]]"
      by auto
    have "fork_for env (int n) s = Exited s' (int k)"
      using body child nk by (subst fork_for.simps) (simp add: max_processes_def)
    then show ?thesis
      using child nk "0.prems" s'
      by (intro exI [of _ s'])
         (simp add: fork_leaving_lines_def calls_of_append prints_append)
  qed
next
  case (Suc d)
  then have lt: "n < k" by simp
  then have n50: "n < 50" using parent(2) by simp
  have pid: "fork_multi env (int n) \<noteq> - 1" "fork_multi env (int n) \<noteq> 0"
    using parent(1) lt by simp_all
  from fork_body_parent [of env "int n" s] pid Suc.prems n50
  obtain s' where body: "fork_body env (int n) s = Continue s'"
    and s': "created_count s' = created_count s + 1"
      "children s' = (children s)[n := Some (fork_multi env (int n))]"
      "trace s' = trace s @
             [Call ''fork'' [],
              Print (check_mark @ '' Created child '' @ show_int (int n) @ '': PID '' @
                     show_int (fork_multi env (int n)) @ endl),
              Call ''usleep'' [I 100000]]"
    by auto
  have inv': "created_count s' = int (Suc n)" "length (children s') = 50"
      "\<forall>i<Suc n. children s' ! i = Some (fork_multi env (int i))"
    using s'(1,2) Suc.prems n50 by (auto simp: nth_list_update less_Suc_eq)
  have "fork_for env (int n) s = fork_for env (int (Suc n)) s'"
    using body n50 by (subst fork_for.simps) (simp add: max_processes_def add.commute)
  moreover have "\<exists>s''. fork_for env (int (Suc n)) s' =
             (if k < 50 \<and> fork_multi env (int k) = 0 then Exited s'' (int k) else Left s'') \<and>
           created_count s'' = int k \<and>
           length (children s'') = 50 \<and>
           (\<forall>i<k. children s'' ! i = Some (fork_multi env (int i))) \<and>
           (\<forall>i. k \<le> i \<longrightarrow> children s'' ! i = children s' ! i) \<and>
           calls_of ''fork'' (trace s'') =
             calls_of ''fork'' (trace s') @
             replicate ((if k < 50 then k + 1 else 50) - Suc n) [] \<and>
           calls_of ''waitpid'' (trace s'') = calls_of ''waitpid'' (trace s') \<and>
           prints (trace s'') =
             prints (trace s') @ map (created_line env) [Suc n..<k] @ fork_leaving_lines env k"
    using Suc.hyps(2) lt inv' by (intro Suc.hyps(1)) simp_all
  moreover have "calls_of ''fork'' (trace s') = calls_of ''fork'' (trace s) @ [[]]"
    and "calls_of ''waitpid'' (trace s') = calls_of ''waitpid'' (trace s)"
    and "prints (trace s') = prints (trace s) @ [created_line env n]"
    using s'(3) by (simp_all add: calls_of_append prints_append created_line_def)
  moreover have "\<forall>i. k \<le> i \<longrightarrow> children s' ! i = children s ! i"
    using s'(2) lt by simp
  moreover have "(if k < 50 then k + 1 else 50) - n =
                 Suc ((if k < 50 then k + 1 else 50) - Suc n)"
    using lt parent(2) by auto
  moreover have "[n..<k] = n # [Suc n..<k]" using lt by (simp add: upt_conv_Cons)
  ultimately show ?case
    by (auto simp: replicate_append_same)
qed

lemma forked_facts:
  "\<forall>i<forked env. fork_multi env (int i) \<noteq> - 1 \<and> fork_multi env (int i) \<noteq> 0"
  "forked env \<le> 50"
  "forked env < 50 \<longrightarrow>
     fork_multi env (int (forked env)) = - 1 \<or> fork_multi env (int (forked env)) = 0"
  using leading_passes [of "\<lambda>i. fork_multi env (int i) \<noteq> - 1 \<and> fork_multi env (int i) \<noteq> 0" 50,
      folded forked_def]
  by auto

lemma fork_for_exact:
  "\<exists>s. fork_for env 0 (fork_start t) =
          (if forked env < 50 \<and> fork_multi env (int (forked env)) = 0
           then Exited s (int (forked env)) else Left s) \<and>
        created_count s = int (forked env) \<and>
        children s =
          map (\<lambda>i. Some (fork_multi env (int i))) [0..<forked env] @
          replicate (50 - forked env) None \<and>
        calls_of ''fork'' (trace s) =
          calls_of ''fork'' t @ replicate (if forked env < 50 then forked env + 1 else 50) [] \<and>
        calls_of ''waitpid'' (trace s) = calls_of ''waitpid'' t \<and>
        prints (trace s) =
          prints t @ map (created_line env) [0..<forked env] @
          fork_leaving_lines env (forked env)"
proof -
  have start: "created_count (fork_start t) = int 0" "length (children (fork_start t)) = 50"
    "\<forall>i<0. children (fork_start t) ! i = Some (fork_multi env (int i))"
    by (simp_all add: fork_start_def)
  have "\<exists>s'. fork_for env (int 0) (fork_start t) =
             (if forked env < 50 \<and> fork_multi env (int (forked env)) = 0
              then Exited s' (int (forked env)) else Left s') \<and>
           created_count s' = int (forked env) \<and>
           length (children s') = 50 \<and>
           (\<forall>i<forked env. children s' ! i = Some (fork_multi env (int i))) \<and>
           (\<forall>i. forked env \<le> i \<longrightarrow> children s' ! i = children (fork_start t) ! i) \<and>
           calls_of ''fork'' (trace s') =
             calls_of ''fork'' (trace (fork_start t)) @
             replicate ((if forked env < 50 then forked env + 1 else 50) - 0) [] \<and>
           calls_of ''waitpid'' (trace s') = calls_of ''waitpid'' (trace (fork_start t)) \<and>
           prints (trace s') =
             prints (trace (fork_start t)) @ map (created_line env) [0..<forked env] @
             fork_leaving_lines env (forked env)"
    by (rule fork_for_run [OF forked_facts _ start]) simp
  then obtain s where run: "fork_for env 0 (fork_start t) =
             (if forked env < 50 \<and> fork_multi env (int (forked env)) = 0
              then Exited s (int (forked env)) else Left s)"
    and count: "created_count s = int (forked env)"
    and len: "length (children s) = 50"
    and low: "\<forall>i<forked env. children s ! i = Some (fork_multi env (int i))"
    and high: "\<forall>i. forked env \<le> i \<longrightarrow> children s ! i = children (fork_start t) ! i"
    and forks: "calls_of ''fork'' (trace s) =
             calls_of ''fork'' t @ replicate (if forked env < 50 then forked env + 1 else 50) []"
    and waits: "calls_of ''waitpid'' (trace s) = calls_of ''waitpid'' t"
    and lines: "prints (trace s) =
             prints t @ map (created_line env) [0..<forked env] @
             fork_leaving_lines env (forked env)"
    by (auto simp: fork_start_def)
  have "children s =
          map (\<lambda>i. Some (fork_multi env (int i))) [0..<forked env] @
          replicate (50 - forked env) None"
  proof (rule nth_equalityI)
    show "length (children s) =
          length (map (\<lambda>i. Some (fork_multi env (int i))) [0..<forked env] @
                  replicate (50 - forked env) None)"
      using len forked_facts(2) [of env] by simp
    fix i assume "i < length (children s)"
    then have i: "i < 50" using len by simp
    show "children s ! i =
          (map (\<lambda>i. Some (fork_multi env (int i))) [0..<forked env] @
           replicate (50 - forked env) None) ! i"
    proof (cases "i < forked env")
      case True
      then show ?thesis using low by (simp add: nth_append)
    next
      case False
      then show ?thesis using high i by (simp add: nth_append fork_start_def)
    qed
  qed
  with run count forks waits lines show ?thesis by blast
qed

lemma wait_for_run:
  assumes "created_count s = int k" "k \<le> length (children s)"
    and "\<forall>i<k. children s ! i = Some (p i)" and "j \<le> k"
  shows "\<exists>s'. wait_for env (int j) s = Left s' \<and>
           created_count s' = int k \<and>
           trace s' = trace s @
             concat (map (\<lambda>i. Call ''waitpid'' [I (p i)] # map Print (waited_lines env i))
                       [j..<k])"
  using assms
proof (induction "k - j" arbitrary: j s)
  case 0
  then have "wait_for env (int j) s = Left s"
    by (subst wait_for.simps) simp
  then show ?case using "0.hyps" "0.prems" by simp
next
  case (Suc d)
  then have lt: "j < k" by simp
  let ?s = "s\<lparr>trace := trace s @ (Call ''waitpid'' [I (p j)] # map Print (waited_lines env j))\<rparr>"
  have entry: "children s ! j = Some (p j)" using Suc.prems lt by simp
  have "wait_for env (int j) s = wait_for env (int (Suc j)) ?s"
    using lt Suc.prems(1,2) entry
    by (subst wait_for.simps) (simp add: add.commute waited_lines_def)
  moreover have "\<exists>s'. wait_for env (int (Suc j)) ?s = Left s' \<and>
           created_count s' = int k \<and>
           trace s' = trace ?s @
             concat (map (\<lambda>i. Call ''waitpid'' [I (p i)] # map Print (waited_lines env i))
                       [Suc j..<k])"
    using Suc.hyps(2) Suc.prems lt by (intro Suc.hyps(1)) simp_all
  ultimately show ?case
    using lt by (auto simp: upt_conv_Cons)
qed

lemma main_fork_multi_run:
  "\<exists>tr. main_fork_multi env t =
          Inr (tr, if forked env < 50 \<and> fork_multi env (int (forked env)) = 0
                   then int (forked env) else 0) \<and>
        calls_of ''fork'' tr =
          calls_of ''fork'' t @ replicate (if forked env < 50 then forked env + 1 else 50) [] \<and>
        calls_of ''waitpid'' tr =
          calls_of ''waitpid'' t @
          (if forked env < 50 \<and> fork_multi env (int (forked env)) = 0 then []
           else map (\<lambda>i. [I (fork_multi env (int i))]) [0..<forked env]) \<and>
        prints tr =
          prints t @ [endl @ ''Testing multiple process creation...'' @ endl] @
          map (created_line env) [0..<forked env] @ fork_leaving_lines env (forked env) @
          (if forked env < 50 \<and> fork_multi env (int (forked env)) = 0 then []
           else [''Waiting for '' @ show_int (int (forked env)) @
                 '' children to complete...'' @ endl] @
                concat (map (waited_lines env) [0..<forked env]) @
                [check_mark @ '' Created '' @ show_int (int (forked env)) @
                 '' child processes total'' @ endl])"
proof -
  define k where "k = forked env"
  define t1 where "t1 = t @ [Print (endl @ ''Testing multiple process creation...'' @ endl)]"
  from fork_for_exact [of env t1] obtain s where
    run: "fork_for env 0 (fork_start t1) =
          (if k < 50 \<and> fork_multi env (int k) = 0 then Exited s (int k) else Left s)"
    and count: "created_count s = int k"
    and kids: "children s =
          map (\<lambda>i. Some (fork_multi env (int i))) [0..<k] @ replicate (50 - k) None"
    and forks: "calls_of ''fork'' (trace s) =
          calls_of ''fork'' t1 @ replicate (if k < 50 then k + 1 else 50) []"
    and waits: "calls_of ''waitpid'' (trace s) = calls_of ''waitpid'' t1"
    and lines: "prints (trace s) =
          prints t1 @ map (created_line env) [0..<k] @ fork_leaving_lines env k"
    unfolding k_def by blast
  have k50: "k \<le> 50" using forked_facts(2) [of env] by (simp add: k_def)
  show ?thesis
  proof (cases "k < 50 \<and> fork_multi env (int k) = 0")
    case True
    then have "fork_for env 0 (fork_start t1) = Exited s (int k)" using run by simp
    then have "main_fork_multi env t = Inr (trace s, int k)"
      unfolding main_fork_multi_def t1_def [symmetric]
      by (simp only: left.case)
    then show ?thesis
      unfolding k_def [symmetric] using True forks waits lines
      by (intro exI [of _ "trace s"]) (simp add: t1_def calls_of_append prints_append)
  next
    case False
    then have left: "fork_for env 0 (fork_start t1) = Left s" using run by simp
    define s1 where "s1 = s\<lparr>trace := trace s @
        [Print (''Waiting for '' @ show_int (created_count s) @
                '' children to complete...'' @ endl)]\<rparr>"
    have "\<exists>s'. wait_for env (int 0) s1 = Left s' \<and>
           created_count s' = int k \<and>
           trace s' = trace s1 @
             concat (map (\<lambda>i. Call ''waitpid'' [I (fork_multi env (int i))] #
                               map Print (waited_lines env i)) [0..<k])"
    proof (rule wait_for_run)
      show "created_count s1 = int k" by (simp add: s1_def count)
      show "k \<le> length (children s1)" using k50 by (simp add: s1_def kids)
      show "\<forall>i<k. children s1 ! i = Some (fork_multi env (int i))"
        by (simp add: s1_def kids nth_append)
      show "0 \<le> k" by simp
    qed
    then obtain s' where wait: "wait_for env 0 s1 = Left s'"
      and count': "created_count s' = int k"
      and tr: "trace s' = trace s1 @
             concat (map (\<lambda>i. Call ''waitpid'' [I (fork_multi env (int i))] #
                               map Print (waited_lines env i)) [0..<k])"
      by auto
    have main: "main_fork_multi env t =
        Inr (trace s' @ [Print (check_mark @ '' Created '' @ show_int (created_count s') @
                                '' child processes total'' @ endl)], 0)"
      unfolding main_fork_multi_def t1_def [symmetric]
      by (simp only: left left.case s1_def [symmetric] wait)
    have "calls_of ''fork'' (trace s') =
          calls_of ''fork'' t @ replicate (if k < 50 then k + 1 else 50) []"
      by (simp add: tr s1_def calls_of_append calls_of_concat_map calls_of_map_Print
          forks t1_def)
    moreover have "calls_of ''waitpid'' (trace s') =
          calls_of ''waitpid'' t @ map (\<lambda>i. [I (fork_multi env (int i))]) [0..<k]"
      by (simp add: tr s1_def calls_of_append calls_of_concat_map calls_of_map_Print
          waits t1_def)
    moreover have "prints (trace s') =
          prints t @ [endl @ ''Testing multiple process creation...'' @ endl] @
          map (created_line env) [0..<k] @ fork_leaving_lines env k @
          [''Waiting for '' @ show_int (int k) @ '' children to complete...'' @ endl] @
          concat (map (waited_lines env) [0..<k])"
      by (simp add: tr s1_def prints_append prints_concat_map prints_map_Print
          lines t1_def count)
    ultimately have facts:
      "calls_of ''fork'' (trace s' @ [Print (check_mark @ '' Created '' @
            show_int (created_count s') @ '' child processes total'' @ endl)]) =
          calls_of ''fork'' t @ replicate (if k < 50 then k + 1 else 50) []"
      "calls_of ''waitpid'' (trace s' @ [Print (check_mark @ '' Created '' @
            show_int (created_count s') @ '' child processes total'' @ endl)]) =
          calls_of ''waitpid'' t @ map (\<lambda>i. [I (fork_multi env (int i))]) [0..<k]"
      "prints (trace s' @ [Print (check_mark @ '' Created '' @
            show_int (created_count s') @ '' child processes total'' @ endl)]) =
          prints t @ [endl @ ''Testing multiple process creation...'' @ endl] @
          map (created_line env) [0..<k] @ fork_leaving_lines env k @
          [''Waiting for '' @ show_int (int k) @ '' children to complete...'' @ endl] @
          concat (map (waited_lines env) [0..<k]) @
          [check_mark @ '' Created '' @ show_int (int k) @
                 '' child processes total'' @ endl]"
      by (simp_all only: calls_of_append prints_append count' calls_of.simps prints.simps
          append_Nil2 append_assoc)
    have sel: "(if k < 50 \<and> fork_multi env (int k) = 0 then a else b) = b" for a b :: 'z
      using False by (rule if_not_P)
    show ?thesis
      unfolding k_def [symmetric] main sel
      by (intro exI [of _ "trace s' @ [Print (check_mark @ '' Created '' @
            show_int (created_count s') @ '' child processes total'' @ endl)]"] conjI refl facts)
  qed
qed

lemma fork_for_through_head:
  "fork_head env s0 n = Some s \<Longrightarrow> fork_for env 0 s0 = fork_for env (int n) s"
proof (induction n arbitrary: s)
  case 0
  then show ?case by simp
next
  case (Suc n)
  from Suc.prems obtain r where r: "fork_head env s0 n = Some r"
    and lt: "int n < max_processes" and body: "fork_body env (int n) r = Continue s"
    by (auto split: option.splits if_splits flow.splits)
  have "fork_for env (int n) r = fork_for env (int n + 1) s"
    using lt body by (subst fork_for.simps) simp
  with Suc.IH [OF r] show ?case by (simp add: add.commute)
qed

lemma forks_succeeded_left:
  assumes "\<not> (forked env < 50 \<and> fork_multi env (int (forked env)) = 0)"
  shows "forks_succeeded env (if forked env < 50 then forked env + 1 else 50) = forked env"
proof -
  have all: "filter (\<lambda>j. fork_multi env (int j) \<noteq> - 1) [0..<forked env] = [0..<forked env]"
    using forked_facts(1) [of env] by (intro filter_True) simp
  show ?thesis
  proof (cases "forked env < 50")
    case True
    then have "fork_multi env (int (forked env)) = - 1"
      using assms forked_facts(3) [of env] by blast
    then show ?thesis
      using True all by (simp add: forks_succeeded_def)
  next
    case False
    then have "forked env = 50" using forked_facts(2) [of env] by simp
    then show ?thesis using all by (simp add: forks_succeeded_def)
  qed
qed

lemma main_fork_child:
  assumes "fork_basic env = 0"
  shows "main_fork env =
     Inr ([Print (''=== C Fork/Process Test ==='' @ endl),
           Call ''getpid'' [],
           Print (''Main process PID: '' @ show_int (getpid env) @ endl),
           Call ''fork'' [],
           Call ''getpid'' [],
           Print (check_mark @ '' Fork successful - Child PID: '' @
                  show_int (getpid env) @ endl),
           Call ''getppid'' [],
           Print (''Child parent PID: '' @ show_int (getppid env) @ endl),
           Call ''sleep'' [I 1]], 0)"
  using assms by (simp add: main_fork_def Let_def)

lemma main_fork_run:
  assumes "fork_basic env \<noteq> 0"
  shows "\<exists>tr. main_fork env =
          Inr (tr, if forked env < 50 \<and> fork_multi env (int (forked env)) = 0
                   then int (forked env) else 0) \<and>
        calls_of ''fork'' tr =
          [] # replicate (if forked env < 50 then forked env + 1 else 50) [] \<and>
        calls_of ''waitpid'' tr =
          (if forked env < 50 \<and> fork_multi env (int (forked env)) = 0 then []
           else map (\<lambda>i. [I (fork_multi env (int i))]) [0..<forked env]) \<and>
        prints tr =
          [''=== C Fork/Process Test ==='' @ endl,
           ''Main process PID: '' @ show_int (getpid env) @ endl] @
          (if fork_basic env = - 1
           then [check_mark @ '' Fork blocked: '' @ fork_basic_error env @ endl]
           else [check_mark @ '' Fork successful - Parent created child PID: '' @
                 show_int (fork_basic env) @ endl,
                 check_mark @ '' Child process completed with status: '' @
                 show_int (WEXITSTATUS (wait_status env)) @ endl]) @
          [endl @ ''Testing multiple process creation...'' @ endl] @
          map (created_line env) [0..<forked env] @ fork_leaving_lines env (forked env) @
          (if forked env < 50 \<and> fork_multi env (int (forked env)) = 0 then []
           else [''Waiting for '' @ show_int (int (forked env)) @
                 '' children to complete...'' @ endl] @
                concat (map (waited_lines env) [0..<forked env]) @
                [check_mark @ '' Created '' @ show_int (int (forked env)) @
                 '' child processes total'' @ endl])"
proof -
  define t1 where "t1 =
     [Print (''=== C Fork/Process Test ==='' @ endl),
      Call ''getpid'' [],
      Print (''Main process PID: '' @ show_int (getpid env) @ endl),
      Call ''fork'' []] @
     (if fork_basic env = - 1
      then [Print (check_mark @ '' Fork blocked: '' @ fork_basic_error env @ endl)]
      else [Print (check_mark @ '' Fork successful - Parent created child PID: '' @
                   show_int (fork_basic env) @ endl),
            Call ''wait'' [],
            Print (check_mark @ '' Child process completed with status: '' @
                   show_int (WEXITSTATUS (wait_status env)) @ endl)])"
  have main: "main_fork env = main_fork_multi env t1"
    using assms by (simp add: main_fork_def Let_def t1_def)
  have forks: "calls_of ''fork'' t1 = [[]]"
    and waits: "calls_of ''waitpid'' t1 = []"
    and lines: "prints t1 =
          [''=== C Fork/Process Test ==='' @ endl,
           ''Main process PID: '' @ show_int (getpid env) @ endl] @
          (if fork_basic env = - 1
           then [check_mark @ '' Fork blocked: '' @ fork_basic_error env @ endl]
           else [check_mark @ '' Fork successful - Parent created child PID: '' @
                 show_int (fork_basic env) @ endl,
                 check_mark @ '' Child process completed with status: '' @
                 show_int (WEXITSTATUS (wait_status env)) @ endl])"
    by (simp_all add: t1_def)
  from main_fork_multi_run [of env t1]
  show ?thesis
    unfolding main forks waits lines by (simp only: append_Cons append_Nil)
qed

lemma fork_head_leading:
  assumes "fork_head env (fork_start t) n = Some s"
  shows "\<forall>i<n. fork_multi env (int i) \<noteq> - 1 \<and> fork_multi env (int i) \<noteq> 0"
  using assms
proof (induction n arbitrary: s)
  case 0
  then show ?case by simp
next
  case (Suc n)
  from Suc.prems obtain r where r: "fork_head env (fork_start t) n = Some r"
    and lt: "int n < max_processes" and body: "fork_body env (int n) r = Continue s"
    by (auto split: option.splits if_splits flow.splits)
  note inv = fork_head_invariant [OF r]
  have n: "n < 50" using lt by (simp add: max_processes_def)
  from fork_body_cases [of r env "int n"] inv n body
  have "fork_multi env (int n) \<noteq> - 1 \<and> fork_multi env (int n) \<noteq> 0"
    by (auto split: if_splits)
  with Suc.IH [OF r] show ?case by (auto simp: less_Suc_eq)
qed

lemma fork_head_forked:
  assumes "fork_head env (fork_start t) n = Some s"
  shows "n \<le> forked env"
proof (rule ccontr)
  assume "\<not> n \<le> forked env"
  then have lt: "forked env < n" by simp
  moreover have "n \<le> 50" using fork_head_invariant [OF assms] by simp
  ultimately have "fork_multi env (int (forked env)) = - 1 \<or>
      fork_multi env (int (forked env)) = 0"
    using forked_facts(3) [of env] by simp
  with fork_head_leading [OF assms] lt show False by blast
qed

lemma fork_head_exists:
  "n \<le> forked env \<Longrightarrow> \<exists>s. fork_head env (fork_start t) n = Some s"
proof (induction n)
  case 0
  then show ?case by simp
next
  case (Suc n)
  then obtain r where r: "fork_head env (fork_start t) n = Some r" by auto
  note inv = fork_head_invariant [OF r]
  have n: "n < 50" using Suc.prems forked_facts(2) [of env] by simp
  have "fork_multi env (int n) \<noteq> - 1" "fork_multi env (int n) \<noteq> 0"
    using Suc.prems forked_facts(1) [of env] by simp_all
  from fork_body_parent [OF this, of r] inv n
  obtain s' where "fork_body env (int n) r = Continue s'" by auto
  then show ?case using r n by (simp add: max_processes_def)
qed

text \<open>
  C4: with \<open>forked env\<close> the number of leading passes of the multi-fork loop whose
  \<open>fork\<close> returns in the parent, the loop of \<open>main\<close> is left at the first \<open>fork\<close> that
  fails or returns 0 in a new child, after \<open>forked env + 1\<close> attempts, or by its test
  after 50 attempts; a failed \<open>fork\<close> is the last one. The parent leaves the loop with
  \<open>created_count = forked env\<close>, which is the number of forks that succeeded and is at
  most 50, and with the pids of these forks in the first \<open>created_count\<close> entries of
  \<open>children\<close>, the other entries untouched; a new child exits with the number of its
  pass. The loop arrives at its test for pass \<open>n\<close> exactly when \<open>n\<close> is at most
  \<open>forked env\<close>; it has then made \<open>n\<close> attempts and \<open>created_count\<close> equals the number
  of forks that succeeded so far. A pass makes one more attempt; when that fork fails the
  loop is left with \<open>created_count\<close> unchanged; in the parent the pid is stored at index
  \<open>created_count\<close>, which is below 50, the length of \<open>children\<close>, and \<open>created_count\<close>
  grows by one. \<open>main\<close> runs this loop after its first \<open>fork\<close>, then waits for exactly
  the children it created and returns 0.
\<close>

theorem C4_multi_fork_loop:
  "(fork_head env (fork_start t) n = Some s \<longrightarrow>
      n \<le> 50 \<and>
      fork_for env 0 (fork_start t) = fork_for env (int n) s \<and>
      calls_of ''fork'' (trace s) = calls_of ''fork'' t @ replicate n [] \<and>
      created_count s = int (forks_succeeded env n) \<and>
      created_count s \<le> 50 \<and>
      (int n < max_processes \<longrightarrow>
         0 \<le> created_count s \<and> nat (created_count s) < 50 \<and> length (children s) = 50 \<and>
         (\<exists>s'. fork_body env (int n) s =
                 (if fork_multi env (int n) = -1 then Break s'
                  else if fork_multi env (int n) = 0 then Exit s' (int n)
                  else Continue s') \<and>
               created_count s' =
                 (if fork_multi env (int n) = -1 \<or> fork_multi env (int n) = 0
                  then created_count s else created_count s + 1) \<and>
               children s' =
                 (if fork_multi env (int n) = -1 \<or> fork_multi env (int n) = 0
                  then children s
                  else (children s)[nat (created_count s) := Some (fork_multi env (int n))]) \<and>
               calls_of ''fork'' (trace s') = calls_of ''fork'' (trace s) @ [[]]))) \<and>
   fork_head env (fork_start t) 51 = None \<and>
   (fork_head env (fork_start t) n \<noteq> None) = (n \<le> forked env) \<and>
   forked env \<le> 50 \<and>
   (\<forall>i<forked env. fork_multi env (int i) \<noteq> - 1 \<and> fork_multi env (int i) \<noteq> 0) \<and>
   (forked env < 50 \<longrightarrow>
      fork_multi env (int (forked env)) = - 1 \<or> fork_multi env (int (forked env)) = 0) \<and>
   (\<exists>s. fork_for env 0 (fork_start t) =
          (if forked env < 50 \<and> fork_multi env (int (forked env)) = 0
           then Exited s (int (forked env)) else Left s) \<and>
        created_count s = int (forked env) \<and>
        created_count s \<le> 50 \<and>
        (\<not> (forked env < 50 \<and> fork_multi env (int (forked env)) = 0) \<longrightarrow>
           created_count s =
             int (forks_succeeded env (if forked env < 50 then forked env + 1 else 50))) \<and>
        children s =
          map (\<lambda>i. Some (fork_multi env (int i))) [0..<forked env] @
          replicate (50 - forked env) None \<and>
        calls_of ''fork'' (trace s) =
          calls_of ''fork'' t @ replicate (if forked env < 50 then forked env + 1 else 50) [] \<and>
        prints (trace s) =
          prints t @ map (created_line env) [0..<forked env] @
          fork_leaving_lines env (forked env)) \<and>
   (\<exists>tr. main_fork_multi env t =
          Inr (tr, if forked env < 50 \<and> fork_multi env (int (forked env)) = 0
                   then int (forked env) else 0) \<and>
        calls_of ''fork'' tr =
          calls_of ''fork'' t @ replicate (if forked env < 50 then forked env + 1 else 50) [] \<and>
        calls_of ''waitpid'' tr =
          calls_of ''waitpid'' t @
          (if forked env < 50 \<and> fork_multi env (int (forked env)) = 0 then []
           else map (\<lambda>i. [I (fork_multi env (int i))]) [0..<forked env]) \<and>
        prints tr =
          prints t @ [endl @ ''Testing multiple process creation...'' @ endl] @
          map (created_line env) [0..<forked env] @ fork_leaving_lines env (forked env) @
          (if forked env < 50 \<and> fork_multi env (int (forked env)) = 0 then []
           else [''Waiting for '' @ show_int (int (forked env)) @
                 '' children to complete...'' @ endl] @
                concat (map (waited_lines env) [0..<forked env]) @
                [check_mark @ '' Created '' @ show_int (int (forked env)) @
                 '' child processes total'' @ endl])) \<and>
   (fork_basic env = 0 \<longrightarrow>
      main_fork env =
        Inr ([Print (''=== C Fork/Process Test ==='' @ endl),
              Call ''getpid'' [],
              Print (''Main process PID: '' @ show_int (getpid env) @ endl),
              Call ''fork'' [],
              Call ''getpid'' [],
              Print (check_mark @ '' Fork successful - Child PID: '' @
                     show_int (getpid env) @ endl),
              Call ''getppid'' [],
              Print (''Child parent PID: '' @ show_int (getppid env) @ endl),
              Call ''sleep'' [I 1]], 0)) \<and>
   (fork_basic env \<noteq> 0 \<longrightarrow>
      (\<exists>tr. main_fork env =
          Inr (tr, if forked env < 50 \<and> fork_multi env (int (forked env)) = 0
                   then int (forked env) else 0) \<and>
        calls_of ''fork'' tr =
          [] # replicate (if forked env < 50 then forked env + 1 else 50) [] \<and>
        calls_of ''waitpid'' tr =
          (if forked env < 50 \<and> fork_multi env (int (forked env)) = 0 then []
           else map (\<lambda>i. [I (fork_multi env (int i))]) [0..<forked env]) \<and>
        prints tr =
          [''=== C Fork/Process Test ==='' @ endl,
           ''Main process PID: '' @ show_int (getpid env) @ endl] @
          (if fork_basic env = - 1
           then [check_mark @ '' Fork blocked: '' @ fork_basic_error env @ endl]
           else [check_mark @ '' Fork successful - Parent created child PID: '' @
                 show_int (fork_basic env) @ endl,
                 check_mark @ '' Child process completed with status: '' @
                 show_int (WEXITSTATUS (wait_status env)) @ endl]) @
          [endl @ ''Testing multiple process creation...'' @ endl] @
          map (created_line env) [0..<forked env] @ fork_leaving_lines env (forked env) @
          (if forked env < 50 \<and> fork_multi env (int (forked env)) = 0 then []
           else [''Waiting for '' @ show_int (int (forked env)) @
                 '' children to complete...'' @ endl] @
                concat (map (waited_lines env) [0..<forked env]) @
                [check_mark @ '' Created '' @ show_int (int (forked env)) @
                 '' child processes total'' @ endl])))"
proof (intro conjI impI)
  assume head: "fork_head env (fork_start t) n = Some s"
  note inv = fork_head_invariant [OF head]
  show "n \<le> 50" using inv by simp
  show "fork_for env 0 (fork_start t) = fork_for env (int n) s"
    by (rule fork_for_through_head [OF head])
  show "calls_of ''fork'' (trace s) = calls_of ''fork'' t @ replicate n []" using inv by simp
  show "created_count s = int (forks_succeeded env n)" using inv by simp
  show "created_count s \<le> 50" using inv by simp
  assume "int n < max_processes"
  then have n: "n < 50" by (simp add: max_processes_def)
  show "0 \<le> created_count s" using inv by simp
  show "nat (created_count s) < 50" using inv n by simp
  show "length (children s) = 50" using inv by simp
  show "\<exists>s'. fork_body env (int n) s =
                 (if fork_multi env (int n) = -1 then Break s'
                  else if fork_multi env (int n) = 0 then Exit s' (int n)
                  else Continue s') \<and>
               created_count s' =
                 (if fork_multi env (int n) = -1 \<or> fork_multi env (int n) = 0
                  then created_count s else created_count s + 1) \<and>
               children s' =
                 (if fork_multi env (int n) = -1 \<or> fork_multi env (int n) = 0
                  then children s
                  else (children s)[nat (created_count s) := Some (fork_multi env (int n))]) \<and>
               calls_of ''fork'' (trace s') = calls_of ''fork'' (trace s) @ [[]]"
    using inv n by (intro fork_body_cases) simp_all
next
  show "fork_head env (fork_start t) 51 = None"
  proof (cases "fork_head env (fork_start t) 51")
    case None
    then show ?thesis .
  next
    case (Some r)
    from fork_head_invariant [OF this] show ?thesis by simp
  qed
next
  show "(fork_head env (fork_start t) n \<noteq> None) = (n \<le> forked env)"
    using fork_head_forked [of env t n] fork_head_exists [of n env t] by auto
next
  show "forked env \<le> 50" by (rule forked_facts(2))
next
  show "\<forall>i<forked env. fork_multi env (int i) \<noteq> - 1 \<and> fork_multi env (int i) \<noteq> 0"
    by (rule forked_facts(1))
next
  assume "forked env < 50"
  then show "fork_multi env (int (forked env)) = - 1 \<or> fork_multi env (int (forked env)) = 0"
    using forked_facts(3) [of env] by simp
next
  from fork_for_exact [of env t] obtain s where
    loop: "fork_for env 0 (fork_start t) =
          (if forked env < 50 \<and> fork_multi env (int (forked env)) = 0
           then Exited s (int (forked env)) else Left s)"
    and count: "created_count s = int (forked env)"
    and kids: "children s =
          map (\<lambda>i. Some (fork_multi env (int i))) [0..<forked env] @
          replicate (50 - forked env) None"
    and forks: "calls_of ''fork'' (trace s) =
          calls_of ''fork'' t @ replicate (if forked env < 50 then forked env + 1 else 50) []"
    and lines: "prints (trace s) =
          prints t @ map (created_line env) [0..<forked env] @
          fork_leaving_lines env (forked env)"
    by blast
  have le: "created_count s \<le> 50"
    using count forked_facts(2) [of env] by simp
  have succ: "\<not> (forked env < 50 \<and> fork_multi env (int (forked env)) = 0) \<longrightarrow>
           created_count s =
             int (forks_succeeded env (if forked env < 50 then forked env + 1 else 50))"
    using count forks_succeeded_left [of env] by simp
  from loop count le succ kids forks lines
  show "\<exists>s. fork_for env 0 (fork_start t) =
          (if forked env < 50 \<and> fork_multi env (int (forked env)) = 0
           then Exited s (int (forked env)) else Left s) \<and>
        created_count s = int (forked env) \<and>
        created_count s \<le> 50 \<and>
        (\<not> (forked env < 50 \<and> fork_multi env (int (forked env)) = 0) \<longrightarrow>
           created_count s =
             int (forks_succeeded env (if forked env < 50 then forked env + 1 else 50))) \<and>
        children s =
          map (\<lambda>i. Some (fork_multi env (int i))) [0..<forked env] @
          replicate (50 - forked env) None \<and>
        calls_of ''fork'' (trace s) =
          calls_of ''fork'' t @ replicate (if forked env < 50 then forked env + 1 else 50) [] \<and>
        prints (trace s) =
          prints t @ map (created_line env) [0..<forked env] @
          fork_leaving_lines env (forked env)"
    by (intro exI [of _ s] conjI)
next
  show "\<exists>tr. main_fork_multi env t =
          Inr (tr, if forked env < 50 \<and> fork_multi env (int (forked env)) = 0
                   then int (forked env) else 0) \<and>
        calls_of ''fork'' tr =
          calls_of ''fork'' t @ replicate (if forked env < 50 then forked env + 1 else 50) [] \<and>
        calls_of ''waitpid'' tr =
          calls_of ''waitpid'' t @
          (if forked env < 50 \<and> fork_multi env (int (forked env)) = 0 then []
           else map (\<lambda>i. [I (fork_multi env (int i))]) [0..<forked env]) \<and>
        prints tr =
          prints t @ [endl @ ''Testing multiple process creation...'' @ endl] @
          map (created_line env) [0..<forked env] @ fork_leaving_lines env (forked env) @
          (if forked env < 50 \<and> fork_multi env (int (forked env)) = 0 then []
           else [''Waiting for '' @ show_int (int (forked env)) @
                 '' children to complete...'' @ endl] @
                concat (map (waited_lines env) [0..<forked env]) @
                [check_mark @ '' Created '' @ show_int (int (forked env)) @
                 '' child processes total'' @ endl])"
    by (rule main_fork_multi_run)
next
  assume "fork_basic env = 0"
  then show "main_fork env =
        Inr ([Print (''=== C Fork/Process Test ==='' @ endl),
              Call ''getpid'' [],
              Print (''Main process PID: '' @ show_int (getpid env) @ endl),
              Call ''fork'' [],
              Call ''getpid'' [],
              Print (check_mark @ '' Fork successful - Child PID: '' @
                     show_int (getpid env) @ endl),
              Call ''getppid'' [],
              Print (''Child parent PID: '' @ show_int (getppid env) @ endl),
              Call ''sleep'' [I 1]], 0)"
    by (rule main_fork_child)
next
  assume "fork_basic env \<noteq> 0"
  then show "\<exists>tr. main_fork env =
          Inr (tr, if forked env < 50 \<and> fork_multi env (int (forked env)) = 0
                   then int (forked env) else 0) \<and>
        calls_of ''fork'' tr =
          [] # replicate (if forked env < 50 then forked env + 1 else 50) [] \<and>
        calls_of ''waitpid'' tr =
          (if forked env < 50 \<and> fork_multi env (int (forked env)) = 0 then []
           else map (\<lambda>i. [I (fork_multi env (int i))]) [0..<forked env]) \<and>
        prints tr =
          [''=== C Fork/Process Test ==='' @ endl,
           ''Main process PID: '' @ show_int (getpid env) @ endl] @
          (if fork_basic env = - 1
           then [check_mark @ '' Fork blocked: '' @ fork_basic_error env @ endl]
           else [check_mark @ '' Fork successful - Parent created child PID: '' @
                 show_int (fork_basic env) @ endl,
                 check_mark @ '' Child process completed with status: '' @
                 show_int (WEXITSTATUS (wait_status env)) @ endl]) @
          [endl @ ''Testing multiple process creation...'' @ endl] @
          map (created_line env) [0..<forked env] @ fork_leaving_lines env (forked env) @
          (if forked env < 50 \<and> fork_multi env (int (forked env)) = 0 then []
           else [''Waiting for '' @ show_int (int (forked env)) @
                 '' children to complete...'' @ endl] @
                concat (map (waited_lines env) [0..<forked env]) @
                [check_mark @ '' Created '' @ show_int (int (forked env)) @
                 '' child processes total'' @ endl])"
    by (rule main_fork_run)
qed

theorem C4_two_forks_then_blocked:
  "(\<exists>s. fork_head \<lparr>getpid = 100, getppid = 1, wait_status = 0,
                    fork_basic = 101, fork_basic_error = [],
                    fork_multi = (\<lambda>i. if i < 2 then 200 + i else - 1),
                    fork_multi_error = (\<lambda>i. ''Resource temporarily unavailable''),
                    waitpid_result = (\<lambda>i. 200 + i)\<rparr> (fork_start []) 1 = Some s \<and>
        created_count s = 1 \<and>
        calls_of ''fork'' (trace s) = [[]] \<and>
        (\<exists>s'. fork_body \<lparr>getpid = 100, getppid = 1, wait_status = 0,
                    fork_basic = 101, fork_basic_error = [],
                    fork_multi = (\<lambda>i. if i < 2 then 200 + i else - 1),
                    fork_multi_error = (\<lambda>i. ''Resource temporarily unavailable''),
                    waitpid_result = (\<lambda>i. 200 + i)\<rparr> 1 s = Continue s' \<and>
               created_count s' = 2 \<and>
               children s' = (children s)[1 := Some 201] \<and>
               calls_of ''fork'' (trace s') = [[], []])) \<and>
   fork_head \<lparr>getpid = 100, getppid = 1, wait_status = 0,
              fork_basic = 101, fork_basic_error = [],
              fork_multi = (\<lambda>i. if i < 2 then 200 + i else - 1),
              fork_multi_error = (\<lambda>i. ''Resource temporarily unavailable''),
              waitpid_result = (\<lambda>i. 200 + i)\<rparr> (fork_start []) 3 = None \<and>
   (\<exists>s. fork_for \<lparr>getpid = 100, getppid = 1, wait_status = 0,
                   fork_basic = 101, fork_basic_error = [],
                   fork_multi = (\<lambda>i. if i < 2 then 200 + i else - 1),
                   fork_multi_error = (\<lambda>i. ''Resource temporarily unavailable''),
                   waitpid_result = (\<lambda>i. 200 + i)\<rparr> 0 (fork_start []) = Left s \<and>
        created_count s = 2 \<and>
        children s = Some 200 # Some 201 # replicate 48 None \<and>
        calls_of ''fork'' (trace s) = [[], [], []]) \<and>
   (\<exists>tr. main_fork \<lparr>getpid = 100, getppid = 1, wait_status = 0,
                     fork_basic = 101, fork_basic_error = [],
                     fork_multi = (\<lambda>i. if i < 2 then 200 + i else - 1),
                     fork_multi_error = (\<lambda>i. ''Resource temporarily unavailable''),
                     waitpid_result = (\<lambda>i. 200 + i)\<rparr> = Inr (tr, 0) \<and>
         calls_of ''fork'' tr = [[], [], [], []] \<and>
         calls_of ''waitpid'' tr = [[I 200], [I 201]] \<and>
         prints tr =
           [''=== C Fork/Process Test ==='' @ endl,
            ''Main process PID: 100'' @ endl,
            check_mark @ '' Fork successful - Parent created child PID: 101'' @ endl,
            check_mark @ '' Child process completed with status: 0'' @ endl,
            endl @ ''Testing multiple process creation...'' @ endl,
            check_mark @ '' Created child 0: PID 200'' @ endl,
            check_mark @ '' Created child 1: PID 201'' @ endl,
            check_mark @ '' Process creation blocked at 2 processes: '' @
              ''Resource temporarily unavailable'' @ endl,
            ''Waiting for 2 children to complete...'' @ endl,
            ''Child 0 (PID 200) completed'' @ endl,
            ''Child 1 (PID 201) completed'' @ endl,
            check_mark @ '' Created 2 child processes total'' @ endl])"
proof -
  let ?env = "\<lparr>getpid = 100, getppid = 1, wait_status = 0,
               fork_basic = 101, fork_basic_error = [],
               fork_multi = (\<lambda>i::int. if i < 2 then 200 + i else - 1),
               fork_multi_error = (\<lambda>i::int. ''Resource temporarily unavailable''),
               waitpid_result = (\<lambda>i::int. 200 + i)\<rparr>"
  have g: "forked ?env = 2"
    unfolding forked_def by (rule leading_passes_eq) simp_all
  have up: "[0..<2] = [0, 1]" by (simp add: numeral_2_eq_2)
  have "\<exists>s. fork_head ?env (fork_start []) (Suc 0) = Some s"
    by (simp add: fork_body_def fork_start_def Let_def max_processes_def)
  then obtain s where head: "fork_head ?env (fork_start []) 1 = Some s"
    by auto
  note run = C4_multi_fork_loop [of ?env "[]" 1 s]
  note gone = C4_multi_fork_loop [of ?env "[]" 3 s]
  have lt: "int 1 < max_processes" by (simp add: max_processes_def)
  have forks: "calls_of ''fork'' (trace s) = calls_of ''fork'' [] @ replicate 1 []"
    and count: "created_count s = int (forks_succeeded ?env 1)"
    and "\<exists>s'. fork_body ?env (int 1) s =
                 (if fork_multi ?env (int 1) = -1 then Break s'
                  else if fork_multi ?env (int 1) = 0 then Exit s' (int 1)
                  else Continue s') \<and>
               created_count s' =
                 (if fork_multi ?env (int 1) = -1 \<or> fork_multi ?env (int 1) = 0
                  then created_count s else created_count s + 1) \<and>
               children s' =
                 (if fork_multi ?env (int 1) = -1 \<or> fork_multi ?env (int 1) = 0
                  then children s
                  else (children s)[nat (created_count s) := Some (fork_multi ?env (int 1))]) \<and>
               calls_of ''fork'' (trace s') = calls_of ''fork'' (trace s) @ [[]]"
    using run head lt by blast+
  moreover have one: "created_count s = 1"
    using count by (simp add: forks_succeeded_def)
  ultimately have pass: "\<exists>s'. fork_body ?env 1 s = Continue s' \<and>
               created_count s' = 2 \<and>
               children s' = (children s)[1 := Some 201] \<and>
               calls_of ''fork'' (trace s') = [[], []]"
    by auto
  have first: "\<exists>s. fork_head ?env (fork_start []) 1 = Some s \<and>
        created_count s = 1 \<and>
        calls_of ''fork'' (trace s) = [[]] \<and>
        (\<exists>s'. fork_body ?env 1 s = Continue s' \<and>
               created_count s' = 2 \<and>
               children s' = (children s)[1 := Some 201] \<and>
               calls_of ''fork'' (trace s') = [[], []])"
    using head one forks pass by (intro exI [of _ s]) simp
  have "(fork_head ?env (fork_start []) 3 \<noteq> None) = (3 \<le> forked ?env)"
    using gone by blast
  then have second: "fork_head ?env (fork_start []) 3 = None"
    by (simp add: g)
  have "\<exists>s. fork_for ?env 0 (fork_start []) =
          (if forked ?env < 50 \<and> fork_multi ?env (int (forked ?env)) = 0
           then Exited s (int (forked ?env)) else Left s) \<and>
        created_count s = int (forked ?env) \<and>
        created_count s \<le> 50 \<and>
        (\<not> (forked ?env < 50 \<and> fork_multi ?env (int (forked ?env)) = 0) \<longrightarrow>
           created_count s =
             int (forks_succeeded ?env (if forked ?env < 50 then forked ?env + 1 else 50))) \<and>
        children s =
          map (\<lambda>i. Some (fork_multi ?env (int i))) [0..<forked ?env] @
          replicate (50 - forked ?env) None \<and>
        calls_of ''fork'' (trace s) =
          calls_of ''fork'' [] @ replicate (if forked ?env < 50 then forked ?env + 1 else 50) [] \<and>
        prints (trace s) =
          prints [] @ map (created_line ?env) [0..<forked ?env] @
          fork_leaving_lines ?env (forked ?env)"
    using run by blast
  then have third: "\<exists>s. fork_for ?env 0 (fork_start []) = Left s \<and>
        created_count s = 2 \<and>
        children s = Some 200 # Some 201 # replicate 48 None \<and>
        calls_of ''fork'' (trace s) = [[], [], []]"
    by (auto simp: g up numeral_3_eq_3)
  have "fork_basic ?env \<noteq> 0" by simp
  then have "\<exists>tr. main_fork ?env =
          Inr (tr, if forked ?env < 50 \<and> fork_multi ?env (int (forked ?env)) = 0
                   then int (forked ?env) else 0) \<and>
        calls_of ''fork'' tr =
          [] # replicate (if forked ?env < 50 then forked ?env + 1 else 50) [] \<and>
        calls_of ''waitpid'' tr =
          (if forked ?env < 50 \<and> fork_multi ?env (int (forked ?env)) = 0 then []
           else map (\<lambda>i. [I (fork_multi ?env (int i))]) [0..<forked ?env]) \<and>
        prints tr =
          [''=== C Fork/Process Test ==='' @ endl,
           ''Main process PID: '' @ show_int (getpid ?env) @ endl] @
          (if fork_basic ?env = - 1
           then [check_mark @ '' Fork blocked: '' @ fork_basic_error ?env @ endl]
           else [check_mark @ '' Fork successful - Parent created child PID: '' @
                 show_int (fork_basic ?env) @ endl,
                 check_mark @ '' Child process completed with status: '' @
                 show_int (WEXITSTATUS (wait_status ?env)) @ endl]) @
          [endl @ ''Testing multiple process creation...'' @ endl] @
          map (created_line ?env) [0..<forked ?env] @ fork_leaving_lines ?env (forked ?env) @
          (if forked ?env < 50 \<and> fork_multi ?env (int (forked ?env)) = 0 then []
           else [''Waiting for '' @ show_int (int (forked ?env)) @
                 '' children to complete...'' @ endl] @
                concat (map (waited_lines ?env) [0..<forked ?env]) @
                [check_mark @ '' Created '' @ show_int (int (forked ?env)) @
                 '' child processes total'' @ endl])"
    using run by blast
  then have fourth: "\<exists>tr. main_fork ?env = Inr (tr, 0) \<and>
         calls_of ''fork'' tr = [[], [], [], []] \<and>
         calls_of ''waitpid'' tr = [[I 200], [I 201]] \<and>
         prints tr =
           [''=== C Fork/Process Test ==='' @ endl,
            ''Main process PID: 100'' @ endl,
            check_mark @ '' Fork successful - Parent created child PID: 101'' @ endl,
            check_mark @ '' Child process completed with status: 0'' @ endl,
            endl @ ''Testing multiple process creation...'' @ endl,
            check_mark @ '' Created child 0: PID 200'' @ endl,
            check_mark @ '' Created child 1: PID 201'' @ endl,
            check_mark @ '' Process creation blocked at 2 processes: '' @
              ''Resource temporarily unavailable'' @ endl,
            ''Waiting for 2 children to complete...'' @ endl,
            ''Child 0 (PID 200) completed'' @ endl,
            ''Child 1 (PID 201) completed'' @ endl,
            check_mark @ '' Created 2 child processes total'' @ endl]"
    by (simp add: g up created_line_def fork_leaving_lines_def waited_lines_def
        WEXITSTATUS_def show_int_def show_nat.simps digit_char_def numeral_3_eq_3)
  from first second third fourth show ?thesis by (intro conjI)
qed
section \<open>Properties of syscalls.c\<close>

lemma test_system_view:
  "snd (test_system env t) = Returned 0 \<and>
   call_names (fst (test_system env t)) = call_names t @ [''system''] \<and>
   prints (fst (test_system env t)) =
     prints t @
     [if system_result env = 0 then warning_mark @ '' system() call successful'' @ endl
      else check_mark @ '' system() call blocked or failed'' @ endl]"
  by (simp add: test_system_def call_names_append prints_append)

lemma test_exec_parent_view:
  assumes "fork_second env \<noteq> 0"
  shows "snd (test_exec env t) = Returned 0 \<and>
   call_names (fst (test_exec env t)) =
     call_names t @ [''fork''] @ (if fork_second env > 0 then [''wait''] else []) @ [''system''] \<and>
   prints (fst (test_exec env t)) =
     prints t @
     (if fork_second env > 0
      then [if WIFEXITED (wait_status env) \<and> WEXITSTATUS (wait_status env) = 0
            then warning_mark @ '' execl() successful'' @ endl
            else check_mark @ '' execl() blocked or failed'' @ endl]
      else []) @
     [if system_result env = 0 then warning_mark @ '' system() call successful'' @ endl
      else check_mark @ '' system() call blocked or failed'' @ endl]"
  using assms
  by (simp add: test_exec_def Let_def test_system_view call_names_append prints_append)

lemma test_exec_child_view:
  assumes "fork_second env = 0"
  shows "call_names (fst (test_exec env t)) = call_names t @ [''fork'', ''execl''] \<and>
   prints (fst (test_exec env t)) =
     prints t @
     (case execl_error env of
        None \<Rightarrow> []
      | Some err \<Rightarrow> [check_mark @ '' execl() blocked: '' @ err @ endl]) \<and>
   snd (test_exec env t) =
     (case execl_error env of
        None \<Rightarrow> Replaced ''/bin/echo'' [''echo'', ''Hello from exec'']
      | Some err \<Rightarrow> Exit_called 1)"
  using assms
  by (simp add: test_exec_def Let_def call_names_append prints_append split: option.splits)

text \<open>
  C5, as stated: the probe exercises exactly the set \<open>chmod\<close>, \<open>exec*\<close>, \<open>system\<close>, each
  operation of the set once and with a line of its own, and no operation outside it. In
  the environment that refuses every operation the run attempts \<open>fork\<close> twice and
  reports it as blocked, though \<open>fork\<close> is outside the set, and it neither attempts
  \<open>execl\<close> nor prints a line about it, though \<open>execl\<close> is in the set.
\<close>

theorem C5_fork_probed_exec_not:
  "''fork'' \<notin> dangerous_operations \<and> ''execl'' \<in> dangerous_operations \<and>
   call_names (fst (main_syscalls refusing)) =
     [''getpid'', ''getppid'', ''getuid'', ''getgid'', ''access'', ''chmod'',
      ''fork'', ''fork'', ''system''] \<and>
   prints (fst (main_syscalls refusing)) =
     [''=== C System Call Test ==='' @ endl,
      ''Process ID: 100'' @ endl,
      ''Parent PID: 1'' @ endl,
      ''User ID: 1000'' @ endl,
      ''Group ID: 1000'' @ endl,
      check_mark @ '' access() allowed'' @ endl,
      check_mark @ '' chmod() blocked: Operation not permitted'' @ endl,
      check_mark @ '' fork() blocked: Operation not permitted'' @ endl,
      check_mark @ '' system() call blocked or failed'' @ endl]"
  by (simp add: dangerous_operations_def main_syscalls_def test_fork_def test_exec_def
      test_system_def refusing_def Let_def show_int_def show_nat.simps digit_char_def)

text \<open>
  C5, amended: after an \<open>access\<close> check the probe exercises \<open>chmod\<close>, \<open>fork\<close>, \<open>exec\<close>
  and \<open>system\<close>. \<open>chmod\<close> and \<open>fork\<close> are each attempted once and answered with one
  line: a blocked line with the error string when the attempt fails, a warning line when
  it succeeds. \<open>execl\<close> is attempted once, in the child of a second \<open>fork\<close>, which
  prints a blocked line with the error string when \<open>execl\<close> returns; the parent of that
  child prints one line about \<open>exec\<close>, a warning when the child exited with status 0 and
  a blocked-or-failed line otherwise, and no such line when the second \<open>fork\<close> failed.
  \<open>system\<close> is attempted once by the process that is still the parent, which prints a
  warning line when it returns 0 and a blocked-or-failed line otherwise, and returns 0.
\<close>

theorem C5_syscalls_probe:
  "call_names (fst (main_syscalls env)) =
     [''getpid'', ''getppid'', ''getuid'', ''getgid'', ''access'', ''chmod'', ''fork''] @
     (if fork_first env = 0 then []
      else (if fork_first env = - 1 then [] else [''wait'']) @ [''fork''] @
           (if fork_second env = 0 then [''execl'']
            else (if fork_second env > 0 then [''wait''] else []) @ [''system''])) \<and>
   prints (fst (main_syscalls env)) =
     [''=== C System Call Test ==='' @ endl,
      ''Process ID: '' @ show_int (getpid env) @ endl,
      ''Parent PID: '' @ show_int (getppid env) @ endl,
      ''User ID: '' @ show_int (getuid env) @ endl,
      ''Group ID: '' @ show_int (getgid env) @ endl,
      (if access_result env = 0 then check_mark @ '' access() allowed'' @ endl
       else cross_mark @ '' access() failed: '' @ access_error env @ endl),
      (if chmod_result env = 0 then warning_mark @ '' chmod() allowed'' @ endl
       else check_mark @ '' chmod() blocked: '' @ chmod_error env @ endl),
      (if fork_first env = - 1
       then check_mark @ '' fork() blocked: '' @ fork_first_error env @ endl
       else if fork_first env = 0
       then warning_mark @ '' fork() successful - child process'' @ endl
       else warning_mark @ '' fork() successful - parent process'' @ endl)] @
     (if fork_first env = 0 then []
      else if fork_second env = 0
      then (case execl_error env of
              None \<Rightarrow> []
            | Some err \<Rightarrow> [check_mark @ '' execl() blocked: '' @ err @ endl])
      else (if fork_second env > 0
            then [if WIFEXITED (wait_status env) \<and> WEXITSTATUS (wait_status env) = 0
                  then warning_mark @ '' execl() successful'' @ endl
                  else check_mark @ '' execl() blocked or failed'' @ endl]
            else []) @
           [if system_result env = 0 then warning_mark @ '' system() call successful'' @ endl
            else check_mark @ '' system() call blocked or failed'' @ endl]) \<and>
   snd (main_syscalls env) =
     (if fork_first env = 0 then Exit_called 0
      else if fork_second env = 0
      then (case execl_error env of
              None \<Rightarrow> Replaced ''/bin/echo'' [''echo'', ''Hello from exec'']
            | Some err \<Rightarrow> Exit_called 1)
      else Returned 0)"
proof -
  consider (child) "fork_first env = 0"
    | (exec_child) "fork_first env \<noteq> 0" "fork_second env = 0"
    | (parent) "fork_first env \<noteq> 0" "fork_second env \<noteq> 0"
    by blast
  then show ?thesis
  proof cases
    case child
    then show ?thesis
      by (simp add: main_syscalls_def test_fork_def Let_def call_names_append prints_append)
  next
    case exec_child
    then show ?thesis
      by (simp add: main_syscalls_def test_fork_def Let_def test_exec_child_view
          call_names_append prints_append)
  next
    case parent
    then show ?thesis
      by (simp add: main_syscalls_def test_fork_def Let_def test_exec_parent_view
          call_names_append prints_append)
  qed
qed

section \<open>Properties of network.c\<close>

lemma connect_for_unroll:
  "connect_for env 0 t = connect_body env 2 (connect_body env 1 (connect_body env 0 t))"
proof -
  have n: "num_targets = 3" by (simp add: num_targets_def test_targets_def)
  have "connect_for env 3 t' = t'" for t'
    by (subst connect_for.simps) (simp add: n)
  moreover have "connect_for env 2 t' = connect_for env 3 (connect_body env 2 t')" for t'
    by (subst connect_for.simps) (simp add: n)
  moreover have "connect_for env 1 t' = connect_for env 2 (connect_body env 1 t')" for t'
    by (subst connect_for.simps) (simp add: n)
  moreover have "connect_for env 0 t' = connect_for env 1 (connect_body env 0 t')" for t'
    by (subst connect_for.simps) (simp add: n)
  ultimately show ?thesis by simp
qed

lemma connect_body_append: "connect_body env i t = t @ connect_body env i []"
  by (simp add: connect_body_def Let_def split: prod.splits)

lemma connect_body_view:
  assumes "test_targets ! nat i = (ip, port, name)"
  shows "calls_of ''connect'' (connect_body env i t) =
           calls_of ''connect'' t @
           (if socket_loop env i < 0 then [] else [[I (socket_loop env i), S ip, I port]]) \<and>
         prints (connect_body env i t) =
           prints t @
           (if socket_loop env i < 0 then []
            else [if connect_result env i = 0
                  then warning_mark @ '' Connected to '' @ name @ '' ('' @ ip @ '':'' @
                       show_int port @ '')'' @ endl
                  else check_mark @ '' Cannot connect to '' @ name @ '' ('' @ ip @ '':'' @
                       show_int port @ '')'' @ endl])"
  using assms by (simp add: connect_body_def Let_def calls_of_append prints_append)

lemma show_ports: "show_int 53 = ''53''" "show_int 22 = ''22''" "show_int 80 = ''80''"
  by (simp_all add: show_int_def show_nat.simps digit_char_def)

text \<open>
  C7: the loop goes through exactly three targets, \<open>8.8.8.8:53\<close>, \<open>127.0.0.1:22\<close> and
  \<open>127.0.0.1:80\<close>, in this order; for each target whose socket could be created it makes
  one \<open>connect\<close> attempt to that address and prints exactly one line, the warning line
  when \<open>connect\<close> succeeds and the cannot-connect line when it fails, and for a target
  whose socket could not be created it does neither. When the initial test socket was
  created the run of \<open>main\<close> ends with this loop and the exit status is 0, whatever the
  connections did; otherwise no connection is attempted and the status is 1.
\<close>

theorem C7_three_targets:
  "calls_of ''connect'' (connect_for env 0 []) =
     (if socket_loop env 0 < 0 then [] else [[I (socket_loop env 0), S ''8.8.8.8'', I 53]]) @
     (if socket_loop env 1 < 0 then [] else [[I (socket_loop env 1), S ''127.0.0.1'', I 22]]) @
     (if socket_loop env 2 < 0 then [] else [[I (socket_loop env 2), S ''127.0.0.1'', I 80]]) \<and>
   prints (connect_for env 0 []) =
     (if socket_loop env 0 < 0 then []
      else [if connect_result env 0 = 0
            then warning_mark @ '' Connected to Google DNS (8.8.8.8:53)'' @ endl
            else check_mark @ '' Cannot connect to Google DNS (8.8.8.8:53)'' @ endl]) @
     (if socket_loop env 1 < 0 then []
      else [if connect_result env 1 = 0
            then warning_mark @ '' Connected to Local SSH (127.0.0.1:22)'' @ endl
            else check_mark @ '' Cannot connect to Local SSH (127.0.0.1:22)'' @ endl]) @
     (if socket_loop env 2 < 0 then []
      else [if connect_result env 2 = 0
            then warning_mark @ '' Connected to Local HTTP (127.0.0.1:80)'' @ endl
            else check_mark @ '' Cannot connect to Local HTTP (127.0.0.1:80)'' @ endl]) \<and>
   (\<exists>t. fst (main_network env) =
          t @ (if socket_first env < 0 then [] else connect_for env 0 []) \<and>
        calls_of ''connect'' t = []) \<and>
   snd (main_network env) = (if socket_first env < 0 then 1 else 0)"
proof (intro conjI)
  have t0: "test_targets ! nat 0 = (''8.8.8.8'', 53, ''Google DNS'')"
    and t1: "test_targets ! nat 1 = (''127.0.0.1'', 22, ''Local SSH'')"
    and t2: "test_targets ! nat 2 = (''127.0.0.1'', 80, ''Local HTTP'')"
    by (simp_all add: test_targets_def)
  show "calls_of ''connect'' (connect_for env 0 []) =
     (if socket_loop env 0 < 0 then [] else [[I (socket_loop env 0), S ''8.8.8.8'', I 53]]) @
     (if socket_loop env 1 < 0 then [] else [[I (socket_loop env 1), S ''127.0.0.1'', I 22]]) @
     (if socket_loop env 2 < 0 then [] else [[I (socket_loop env 2), S ''127.0.0.1'', I 80]])"
    by (simp add: connect_for_unroll connect_body_view [OF t0] connect_body_view [OF t1]
        connect_body_view [OF t2])
  show "prints (connect_for env 0 []) =
     (if socket_loop env 0 < 0 then []
      else [if connect_result env 0 = 0
            then warning_mark @ '' Connected to Google DNS (8.8.8.8:53)'' @ endl
            else check_mark @ '' Cannot connect to Google DNS (8.8.8.8:53)'' @ endl]) @
     (if socket_loop env 1 < 0 then []
      else [if connect_result env 1 = 0
            then warning_mark @ '' Connected to Local SSH (127.0.0.1:22)'' @ endl
            else check_mark @ '' Cannot connect to Local SSH (127.0.0.1:22)'' @ endl]) @
     (if socket_loop env 2 < 0 then []
      else [if connect_result env 2 = 0
            then warning_mark @ '' Connected to Local HTTP (127.0.0.1:80)'' @ endl
            else check_mark @ '' Cannot connect to Local HTTP (127.0.0.1:80)'' @ endl])"
    by (simp add: connect_for_unroll connect_body_view [OF t0] connect_body_view [OF t1]
        connect_body_view [OF t2] show_ports)
  have app: "connect_for env 0 t = t @ connect_for env 0 []" for t
    unfolding connect_for_unroll
    by (subst connect_body_append, subst connect_body_append [of env 1],
        subst connect_body_append [of env 0], subst (2) connect_body_append,
        subst (3) connect_body_append) simp
  show "\<exists>t. fst (main_network env) =
          t @ (if socket_first env < 0 then [] else connect_for env 0 []) \<and>
        calls_of ''connect'' t = []"
  proof (cases "socket_first env < 0")
    case True
    then show ?thesis by (simp add: main_network_def Let_def)
  next
    case False
    define T where "T =
      [Print (''=== C Network Test ==='' @ endl), Call ''socket'' []] @
      [Print (check_mark @ '' Socket creation successful'' @ endl),
       Call ''bind'' [I (socket_first env)]] @
      (if bind_result env = 0
       then [Print (check_mark @ '' Local bind successful'' @ endl)]
       else [Print (cross_mark @ '' Local bind failed'' @ endl)]) @
      [Call ''close'' [I (socket_first env)]]"
    have "fst (main_network env) = connect_for env 0 T"
      using False by (simp add: main_network_def Let_def T_def)
    also have "\<dots> = T @ connect_for env 0 []" by (rule app)
    finally have "fst (main_network env) = T @ connect_for env 0 []" .
    moreover have "calls_of ''connect'' T = []"
      by (simp add: T_def calls_of_append)
    ultimately show ?thesis
      using False by (intro exI [of _ T]) simp
  qed
  show "snd (main_network env) = (if socket_first env < 0 then 1 else 0)"
    by (simp add: main_network_def Let_def)
qed

section \<open>Properties of file_io.c\<close>

lemma sensitive_for_unroll:
  "sensitive_for env 0 t =
     sensitive_body env 2 (sensitive_body env 1 (sensitive_body env 0 t))"
proof -
  have "sensitive_for env 3 t' = t'" for t'
    by (subst sensitive_for.simps) (simp add: count_sensitive_def sensitive_def)
  moreover have "sensitive_for env 2 t' = sensitive_for env 3 (sensitive_body env 2 t')" for t'
    by (subst sensitive_for.simps) (simp add: count_sensitive_def sensitive_def)
  moreover have "sensitive_for env 1 t' = sensitive_for env 2 (sensitive_body env 1 t')" for t'
    by (subst sensitive_for.simps) (simp add: count_sensitive_def sensitive_def)
  moreover have "sensitive_for env 0 t' = sensitive_for env 1 (sensitive_body env 0 t')" for t'
    by (subst sensitive_for.simps) (simp add: count_sensitive_def sensitive_def)
  ultimately show ?thesis by simp
qed

lemma sensitive_body_view:
  "0 \<le> i \<Longrightarrow> nat i < length sensitive \<Longrightarrow>
   calls_of ''fopen'' (sensitive_body env i t) =
     calls_of ''fopen'' t @ [[S (sensitive ! nat i), S ''r'']] \<and>
   prints (sensitive_body env i t) =
     prints t @
     [if fopen_sensitive env i
      then warning_mark @ '' WARNING: Can access '' @ sensitive ! nat i @ endl
      else check_mark @ '' Cannot access '' @ sensitive ! nat i @ endl]"
  by (simp add: sensitive_body_def calls_of_append prints_append)

text \<open>
  C8: the sensitive-path loop attempts to open for reading exactly the three paths
  \<open>/etc/passwd\<close>, \<open>/proc/version\<close> and \<open>/root\<close>, in this order, and prints one line per
  path: the warning line when the open succeeds, the cannot-access line when it fails.
  The run of \<open>main\<close> ends with this loop and the exit status is 0 in every environment,
  whichever opens succeed and also when \<open>test.txt\<close> cannot be created.
\<close>

theorem C8_sensitive_paths:
  "calls_of ''fopen'' (sensitive_for env 0 []) =
     [[S ''/etc/passwd'', S ''r''], [S ''/proc/version'', S ''r''], [S ''/root'', S ''r'']] \<and>
   prints (sensitive_for env 0 []) =
     [if fopen_sensitive env 0 then warning_mark @ '' WARNING: Can access /etc/passwd'' @ endl
      else check_mark @ '' Cannot access /etc/passwd'' @ endl,
      if fopen_sensitive env 1 then warning_mark @ '' WARNING: Can access /proc/version'' @ endl
      else check_mark @ '' Cannot access /proc/version'' @ endl,
      if fopen_sensitive env 2 then warning_mark @ '' WARNING: Can access /root'' @ endl
      else check_mark @ '' Cannot access /root'' @ endl] \<and>
   (\<exists>t. fst (main_file_io env) = t @ sensitive_for env 0 [] \<and>
        calls_of ''fopen'' t =
          [S ''test.txt'', S ''w''] #
          (if fopen_write env then [[S ''test.txt'', S ''r'']] else [])) \<and>
   snd (main_file_io env) = 0"
proof (intro conjI)
  show "calls_of ''fopen'' (sensitive_for env 0 []) =
     [[S ''/etc/passwd'', S ''r''], [S ''/proc/version'', S ''r''], [S ''/root'', S ''r'']]"
    by (simp add: sensitive_for_unroll sensitive_body_view sensitive_def)
  show "prints (sensitive_for env 0 []) =
     [if fopen_sensitive env 0 then warning_mark @ '' WARNING: Can access /etc/passwd'' @ endl
      else check_mark @ '' Cannot access /etc/passwd'' @ endl,
      if fopen_sensitive env 1 then warning_mark @ '' WARNING: Can access /proc/version'' @ endl
      else check_mark @ '' Cannot access /proc/version'' @ endl,
      if fopen_sensitive env 2 then warning_mark @ '' WARNING: Can access /root'' @ endl
      else check_mark @ '' Cannot access /root'' @ endl]"
    by (simp add: sensitive_for_unroll sensitive_body_view sensitive_def)
  have app: "sensitive_for env 0 t = t @ sensitive_for env 0 []" for t
    by (simp add: sensitive_for_unroll sensitive_body_def)
  show "\<exists>t. fst (main_file_io env) = t @ sensitive_for env 0 [] \<and>
        calls_of ''fopen'' t =
          [S ''test.txt'', S ''w''] #
          (if fopen_write env then [[S ''test.txt'', S ''r'']] else [])"
    unfolding main_file_io_def Let_def fst_conv
    by (subst app, rule exI, rule conjI, rule refl)
       (simp add: calls_of_append split: option.splits)
  show "snd (main_file_io env) = 0"
    by (simp add: main_file_io_def Let_def)
qed

end
